theory Spec2Isabelle
  imports Complex_Main "HOL-Library.Product_Lexorder"
begin

section \<open>Strings and numbers of the host language\<close>

text \<open>
  A JavaScript string is a sequence of UTF-16 code units; a code unit is modelled by its
  numeric value. \<open>ascii\<close> embeds an ASCII literal, so that the display number
  \<^verbatim>\<open>"001"\<close> is \<open>ascii ''001''\<close>.
\<close>

type_synonym jsstring = "nat list"

definition ascii :: "string \<Rightarrow> jsstring" where
  "ascii s = map of_char s"

text \<open>
  The code units that \<^verbatim>\<open>String.prototype.trim\<close> and \<^verbatim>\<open>parseInt\<close> strip:
  the WhiteSpace and LineTerminator productions of ECMAScript (TAB, LF, VT, FF, CR, SP,
  NBSP, U+1680, U+2000 to U+200A, U+2028, U+2029, U+202F, U+205F, U+3000, U+FEFF).
\<close>

definition isWhiteSpace :: "nat \<Rightarrow> bool" where
  "isWhiteSpace c \<longleftrightarrow>
     c \<in> set [9, 10, 11, 12, 13, 32, 160, 5760, 8232, 8233, 8239, 8287, 12288, 65279]
     \<or> (8192 \<le> c \<and> c \<le> 8202)"

definition trim :: "jsstring \<Rightarrow> jsstring" where
  "trim s = rev (dropWhile isWhiteSpace (rev (dropWhile isWhiteSpace s)))"

definition isDigit :: "nat \<Rightarrow> bool" where
  "isDigit c \<longleftrightarrow> 48 \<le> c \<and> c \<le> 57"

definition digitsValue :: "jsstring \<Rightarrow> int" where
  "digitsValue ds = foldl (\<lambda>acc c. acc * 10 + int (c - 48)) 0 ds"

text \<open>
  \<^verbatim>\<open>Number.parseInt(s, 10)\<close>: leading white space is skipped, one sign is read, then the
  longest prefix of decimal digits; with no digit the result is NaN, here \<open>None\<close>.
  The value is kept as an unbounded integer (the source's doubles are exact below \<open>2^53\<close>).
\<close>

definition parseInt10 :: "jsstring \<Rightarrow> int option" where
  "parseInt10 s =
     (let s1 = dropWhile isWhiteSpace s;
          sgn_rest = (case s1 of
                        [] \<Rightarrow> (1, [])
                      | c # r \<Rightarrow> if c = 45 then (- 1, r) else if c = 43 then (1, r) else (1, s1));
          ds = takeWhile isDigit (snd sgn_rest)
      in if ds = [] then None else Some (fst sgn_rest * digitsValue ds))"

text \<open>\<^verbatim>\<open>String(n)\<close> for an integer \<open>n\<close>: its decimal digits, with a minus sign when negative.\<close>

function digitsOf :: "nat \<Rightarrow> jsstring" where
  "digitsOf n = (if n < 10 then [48 + n] else digitsOf (n div 10) @ [48 + n mod 10])"
  by pat_completeness auto
termination
  by (relation "measure (\<lambda>n. n)") auto

declare digitsOf.simps [simp del]

definition numberToString :: "int \<Rightarrow> jsstring" where
  "numberToString n = (if n < 0 then 45 # digitsOf (nat (- n)) else digitsOf (nat n))"

definition padStart :: "nat \<Rightarrow> nat \<Rightarrow> jsstring \<Rightarrow> jsstring" where
  "padStart targetLength c s = replicate (targetLength - length s) c @ s"

text \<open>\<^verbatim>\<open>function pad3(n) { return String(n).padStart(3, '0') }\<close>\<close>

definition pad3 :: "int \<Rightarrow> jsstring" where
  "pad3 n = padStart 3 48 (numberToString n)"

text \<open>
  A JavaScript number as the estimated-minutes field of the form can hold it:
  \<^verbatim>\<open>Number(e.target.value)\<close> is a finite value, NaN or an infinity. Finite doubles are
  rationals, and \<^verbatim>\<open>Math.floor\<close> is exact on them.
\<close>

datatype jsnum = Finite rat | NaN | PosInfinity | NegInfinity

section \<open>Data model\<close>

datatype Priority = Low | Medium | High

datatype Status = Waiting | In_progress | Done | Skipped

record Ticket =
  ticket_id :: jsstring
  number :: jsstring
  name :: jsstring
  desc :: jsstring
  priority :: Priority
  etaMinutes :: int
  status :: Status
  createdAt :: int
  startedAt :: "int option"
  doneAt :: "int option"
  result :: "jsstring option"

fun priorityRank :: "Priority \<Rightarrow> int" where
  "priorityRank p = (if p = High then 3 else if p = Medium then 2 else 1)"

text \<open>\<^verbatim>\<open>Math.max(0, Math.round((b - a) / 60000))\<close>; \<^verbatim>\<open>Math.round\<close> rounds a tie upwards,
  which is \<open>\<lfloor>x + 1/2\<rfloor>\<close>, the \<open>round\<close> of HOL.\<close>

definition minutesBetween :: "int \<Rightarrow> int \<Rightarrow> int" where
  "minutesBetween a b = max 0 (round (rat_of_int (b - a) / 60000))"

text \<open>
  \<^verbatim>\<open>isSameLocalDay\<close> compares \<^verbatim>\<open>getFullYear\<close>, \<^verbatim>\<open>getMonth\<close> and \<^verbatim>\<open>getDate\<close> of the two
  instants. The local calendar of the host is a parameter: \<open>localDate\<close> maps an instant
  to that triple.
\<close>

definition isSameLocalDay :: "(int \<Rightarrow> int \<times> int \<times> int) \<Rightarrow> int \<Rightarrow> int \<Rightarrow> bool" where
  "isSameLocalDay localDate a b \<longleftrightarrow>
     (case (localDate a, localDate b) of
        ((ya, ma, da), (yb, mb, db)) \<Rightarrow> ya = yb \<and> ma = mb \<and> da = db)"

section \<open>Queue projection\<close>

text \<open>
  \<^verbatim>\<open>Array.prototype.sort\<close> with a comparator: the sort is stable, and an element \<open>x\<close>
  stays in front of a later \<open>y\<close> unless the comparator is positive on \<open>(x, y)\<close>.
  For a comparator that is a total preorder the result is the one computed by
  stable insertion.
\<close>

fun insertBy :: "('a \<Rightarrow> 'a \<Rightarrow> int) \<Rightarrow> 'a \<Rightarrow> 'a list \<Rightarrow> 'a list" where
  "insertBy cmp x [] = [x]"
| "insertBy cmp x (y # ys) = (if cmp x y \<le> 0 then x # y # ys else y # insertBy cmp x ys)"

fun sortBy :: "('a \<Rightarrow> 'a \<Rightarrow> int) \<Rightarrow> 'a list \<Rightarrow> 'a list" where
  "sortBy cmp [] = []"
| "sortBy cmp (x # xs) = insertBy cmp x (sortBy cmp xs)"

definition compareWaiting :: "Ticket \<Rightarrow> Ticket \<Rightarrow> int" where
  "compareWaiting x y =
     (let pr = priorityRank (priority y) - priorityRank (priority x)
      in if pr \<noteq> 0 then pr else createdAt x - createdAt y)"

definition sortWaitingQueue :: "Ticket list \<Rightarrow> Ticket list" where
  "sortWaitingQueue tickets = sortBy compareWaiting (filter (\<lambda>t. status t = Waiting) tickets)"

definition inProgress :: "Ticket list \<Rightarrow> Ticket option" where
  "inProgress tickets = find (\<lambda>t. status t = In_progress) tickets"

definition waitingQueue :: "Ticket list \<Rightarrow> Ticket list" where
  "waitingQueue tickets = sortWaitingQueue tickets"

text \<open>\<open>maxNumber\<close> is the \<^verbatim>\<open>max\<close> of \<^verbatim>\<open>nextNumber\<close>: the \<^verbatim>\<open>reduce\<close> from 0 that skips a
  number for which \<^verbatim>\<open>Number.isFinite\<close> fails.\<close>

definition maxNumber :: "Ticket list \<Rightarrow> int" where
  "maxNumber tickets =
     foldl (\<lambda>acc t. case parseInt10 (number t) of None \<Rightarrow> acc | Some n \<Rightarrow> max acc n) 0 tickets"

definition nextNumber :: "Ticket list \<Rightarrow> jsstring" where
  "nextNumber tickets = pad3 (maxNumber tickets + 1)"

section \<open>Derived statistics\<close>

text \<open>
  The three figures of the administration panel. \<open>t\<close> is the value of \<^verbatim>\<open>Date.now()\<close>
  read by the projection; an absent optional field (\<^verbatim>\<open>x.doneAt != null\<close> fails) is
  \<open>None\<close>. \<open>waitRows\<close> and \<open>handleRows\<close> are the \<^verbatim>\<open>rows\<close> of the two averages,
  \<open>waitMinutesOf\<close> and \<open>handleMinutesOf\<close> the summands of their \<^verbatim>\<open>reduce\<close>.
\<close>

definition todayDone :: "(int \<Rightarrow> int \<times> int \<times> int) \<Rightarrow> int \<Rightarrow> Ticket list \<Rightarrow> Ticket list" where
  "todayDone localDate t tickets =
     filter (\<lambda>x. case doneAt x of None \<Rightarrow> False | Some d \<Rightarrow> isSameLocalDay localDate d t) tickets"

definition waitRows :: "(int \<Rightarrow> int \<times> int \<times> int) \<Rightarrow> int \<Rightarrow> Ticket list \<Rightarrow> Ticket list" where
  "waitRows localDate t tickets =
     filter (\<lambda>x. case startedAt x of None \<Rightarrow> False | Some s \<Rightarrow> isSameLocalDay localDate s t) tickets"

definition handleRows :: "(int \<Rightarrow> int \<times> int \<times> int) \<Rightarrow> int \<Rightarrow> Ticket list \<Rightarrow> Ticket list" where
  "handleRows localDate t tickets =
     filter (\<lambda>x. case (startedAt x, doneAt x) of
                   (Some s, Some d) \<Rightarrow> isSameLocalDay localDate d t
                 | _ \<Rightarrow> False) tickets"

text \<open>The non-null assertions \<^verbatim>\<open>x.startedAt!\<close> and \<^verbatim>\<open>x.doneAt!\<close> are applied to rows that
  passed the filter, so the \<open>None\<close> branches below are never taken on them.\<close>

definition waitMinutesOf :: "Ticket \<Rightarrow> int" where
  "waitMinutesOf x = (case startedAt x of None \<Rightarrow> 0 | Some s \<Rightarrow> minutesBetween (createdAt x) s)"

definition handleMinutesOf :: "Ticket \<Rightarrow> int" where
  "handleMinutesOf x =
     (case (startedAt x, doneAt x) of (Some s, Some d) \<Rightarrow> minutesBetween s d | _ \<Rightarrow> 0)"

definition avgTodayWaitMinutes :: "(int \<Rightarrow> int \<times> int \<times> int) \<Rightarrow> int \<Rightarrow> Ticket list \<Rightarrow> int" where
  "avgTodayWaitMinutes localDate t tickets =
     (let rows = waitRows localDate t tickets
      in if length rows = 0 then 0
         else let sum = foldl (\<lambda>acc x. acc + waitMinutesOf x) 0 rows
              in round (rat_of_int sum / rat_of_nat (length rows)))"

definition avgTodayHandleMinutes :: "(int \<Rightarrow> int \<times> int \<times> int) \<Rightarrow> int \<Rightarrow> Ticket list \<Rightarrow> int" where
  "avgTodayHandleMinutes localDate t tickets =
     (let rows = handleRows localDate t tickets
      in if length rows = 0 then 0
         else let sum = foldl (\<lambda>acc x. acc + handleMinutesOf x) 0 rows
              in round (rat_of_int sum / rat_of_nat (length rows)))"

section \<open>Lifecycle operations\<close>

text \<open>
  Each handler reads the projections of the rendered store and replaces the store.
  What the handler takes from its environment is an argument: the identifier returned by
  \<^verbatim>\<open>crypto.randomUUID()\<close>, the instant returned by \<^verbatim>\<open>Date.now()\<close>, the fields of the
  form, the result draft and the answer to \<^verbatim>\<open>window.confirm\<close>. The store is the
  only state modelled; the messages and the form fields that a handler resets are not.
\<close>

definition createTicket ::
  "jsstring \<Rightarrow> int \<Rightarrow> jsstring \<Rightarrow> jsstring \<Rightarrow> Priority \<Rightarrow> jsnum \<Rightarrow> Ticket list \<Rightarrow> Ticket list" where
  "createTicket uuid now applyName applyDesc applyPriority applyEta tickets =
     (let name' = trim applyName;
          desc' = trim applyDesc;
          eta = (case applyEta of Finite q \<Rightarrow> max 1 \<lfloor>q\<rfloor> | _ \<Rightarrow> 15)
      in if name' = [] \<or> desc' = [] then tickets
         else tickets @
           [\<lparr>ticket_id = uuid, number = nextNumber tickets, name = name', desc = desc',
             priority = applyPriority, etaMinutes = eta, status = Waiting, createdAt = now,
             startedAt = None, doneAt = None, result = None\<rparr>])"

definition callNext :: "int \<Rightarrow> Ticket list \<Rightarrow> Ticket list" where
  "callNext now tickets =
     (case inProgress tickets of
        Some ip \<Rightarrow> tickets
      | None \<Rightarrow>
          (case waitingQueue tickets of
             [] \<Rightarrow> tickets
           | next # rest \<Rightarrow>
               map (\<lambda>t. if ticket_id t = ticket_id next
                         then t\<lparr>status := In_progress, startedAt := Some now\<rparr>
                         else t) tickets))"

definition markDone :: "int \<Rightarrow> jsstring \<Rightarrow> Ticket list \<Rightarrow> Ticket list" where
  "markDone now currentResultDraft tickets =
     (case inProgress tickets of
        None \<Rightarrow> tickets
      | Some ip \<Rightarrow>
          (let res = trim currentResultDraft
           in map (\<lambda>t. if ticket_id t = ticket_id ip
                        then t\<lparr>status := Done, doneAt := Some now, result := Some res\<rparr>
                        else t) tickets))"

definition markSkipped :: "Ticket list \<Rightarrow> Ticket list" where
  "markSkipped tickets =
     (case inProgress tickets of
        None \<Rightarrow> tickets
      | Some ip \<Rightarrow>
          map (\<lambda>t. if ticket_id t = ticket_id ip then t\<lparr>status := Skipped\<rparr> else t) tickets)"

definition bumpPriority :: "jsstring \<Rightarrow> Ticket list \<Rightarrow> Ticket list" where
  "bumpPriority i tickets =
     map (\<lambda>t. if ticket_id t \<noteq> i then t
               else t\<lparr>priority := (if priority t = Low then Medium
                                    else if priority t = Medium then High else High)\<rparr>) tickets"

definition resetAll :: "bool \<Rightarrow> Ticket list \<Rightarrow> Ticket list" where
  "resetAll ok tickets = (if \<not> ok then tickets else [])"

section \<open>The store as a state machine\<close>

datatype Op =
    Create jsstring int jsstring jsstring Priority jsnum
  | CallNext int
  | Complete int jsstring
  | Skip
  | Bump jsstring
  | Reset bool

fun step :: "Op \<Rightarrow> Ticket list \<Rightarrow> Ticket list" where
  "step (Create uuid now a d p e) s = createTicket uuid now a d p e s"
| "step (CallNext now) s = callNext now s"
| "step (Complete now draft) s = markDone now draft s"
| "step Skip s = markSkipped s"
| "step (Bump i) s = bumpPriority i s"
| "step (Reset ok) s = resetAll ok s"

text \<open>\<^verbatim>\<open>crypto.randomUUID()\<close> returns an identifier that no ticket of the store carries.\<close>

fun uuid_fresh :: "Op \<Rightarrow> Ticket list \<Rightarrow> bool" where
  "uuid_fresh (Create uuid now a d p e) s = (uuid \<notin> set (map ticket_id s))"
| "uuid_fresh _ s = True"

inductive reachable :: "Ticket list \<Rightarrow> bool" where
  reachable_init: "reachable []"
| reachable_step: "reachable s \<Longrightarrow> uuid_fresh op s \<Longrightarrow> reachable (step op s)"

text \<open>A history of operations, run from a store, and the display numbers it hands out:
  the numbers of the tickets that each create appends.\<close>

fun run :: "Op list \<Rightarrow> Ticket list \<Rightarrow> Ticket list" where
  "run [] s = s"
| "run (op # ops) s = run ops (step op s)"

fun fresh_history :: "Op list \<Rightarrow> Ticket list \<Rightarrow> bool" where
  "fresh_history [] s = True"
| "fresh_history (op # ops) s = (uuid_fresh op s \<and> fresh_history ops (step op s))"

fun isCreate :: "Op \<Rightarrow> bool" where
  "isCreate (Create uuid now a d p e) = True"
| "isCreate _ = False"

fun isReset :: "Op \<Rightarrow> bool" where
  "isReset (Reset ok) = ok"
| "isReset _ = False"

fun assignedNumbers :: "Op list \<Rightarrow> Ticket list \<Rightarrow> jsstring list" where
  "assignedNumbers [] s = []"
| "assignedNumbers (op # ops) s =
     (if isCreate op then map number (drop (length s) (step op s)) else [])
     @ assignedNumbers ops (step op s)"

text \<open>
  The page calls \<^verbatim>\<open>bumpPriority\<close> from one place: the button of a row of the waiting-queue
  table (\<^verbatim>\<open>waitingQueue.map\<close>), with the identifier of that row's ticket. (The button is
  moreover disabled on a row of priority high.) A history of the page is a history in
  which every create gets a fresh identifier and every bump-priority gets the identifier
  of a ticket of the waiting queue of the store it is applied to.
\<close>

fun bump_rendered :: "Op \<Rightarrow> Ticket list \<Rightarrow> bool" where
  "bump_rendered (Bump i) s = (i \<in> set (map ticket_id (waitingQueue s)))"
| "bump_rendered _ s = True"

fun page_history :: "Op list \<Rightarrow> Ticket list \<Rightarrow> bool" where
  "page_history [] s = True"
| "page_history (op # ops) s =
     (uuid_fresh op s \<and> bump_rendered op s \<and> page_history ops (step op s))"

section \<open>The projections as the specification words them\<close>

subsection \<open>Waiting-queue ordering\<close>

text \<open>
  Filter to the waiting tickets; sort by priority rank descending (high 3, medium 2,
  low 1), ties broken by \<open>createdAt\<close> ascending, stable otherwise: a stable sort on the
  key (negated rank, \<open>createdAt\<close>) in lexicographic order.
\<close>

fun rank_spec :: "Priority \<Rightarrow> int" where
  "rank_spec High = 3"
| "rank_spec Medium = 2"
| "rank_spec Low = 1"

definition waiting_key_spec :: "Ticket \<Rightarrow> int \<times> int" where
  "waiting_key_spec t = (- rank_spec (priority t), createdAt t)"

definition waitingQueue_spec :: "Ticket list \<Rightarrow> Ticket list" where
  "waitingQueue_spec tickets = sort_key waiting_key_spec (filter (\<lambda>t. status t = Waiting) tickets)"

subsection \<open>Average waiting time\<close>

text \<open>
  The average, over the tickets started on the day of \<open>t\<close>, of the minutes from
  \<open>createdAt\<close> to \<open>startedAt\<close>, rounded to the nearest integer; 0 without such tickets.
\<close>

definition exactWaitMinutes :: "Ticket \<Rightarrow> rat" where
  "exactWaitMinutes x =
     (case startedAt x of None \<Rightarrow> 0 | Some s \<Rightarrow> rat_of_int (s - createdAt x) / 60000)"

definition avgWait_spec :: "(int \<Rightarrow> int \<times> int \<times> int) \<Rightarrow> int \<Rightarrow> Ticket list \<Rightarrow> int" where
  "avgWait_spec localDate t tickets =
     (let rows = filter (\<lambda>x. case startedAt x of None \<Rightarrow> False
                                | Some s \<Rightarrow> localDate s = localDate t) tickets
      in if rows = [] then 0
         else round (sum_list (map exactWaitMinutes rows) / rat_of_nat (length rows)))"

section \<open>Values for the examples\<close>

text \<open>A calendar: days of 86400000 ms counted from the epoch, all in January 1970 (what a
  host in UTC gives for the first 31 days). A waiting ticket with an ASCII identifier.\<close>

definition utcJanuary1970 :: "int \<Rightarrow> int \<times> int \<times> int" where
  "utcJanuary1970 t = (1970, 0, 1 + t div 86400000)"

definition mkTicket :: "string \<Rightarrow> Priority \<Rightarrow> int \<Rightarrow> Ticket" where
  "mkTicket i p c =
     \<lparr>ticket_id = ascii i, number = ascii i, name = ascii ''n'', desc = ascii ''d'',
      priority = p, etaMinutes = 15, status = Waiting, createdAt = c,
      startedAt = None, doneAt = None, result = None\<rparr>"

section \<open>The waiting queue is the specified ordering\<close>

lemma compareWaiting_le_iff:
  "compareWaiting x y \<le> 0 \<longleftrightarrow> waiting_key_spec x \<le> waiting_key_spec y"
  by (cases "priority x"; cases "priority y")
     (simp_all add: compareWaiting_def waiting_key_spec_def less_eq_prod_def)

lemma insertBy_compareWaiting:
  "insertBy compareWaiting x ys = insort_key waiting_key_spec x ys"
  by (induction ys) (simp_all add: compareWaiting_le_iff)

lemma sortBy_compareWaiting:
  "sortBy compareWaiting xs = sort_key waiting_key_spec xs"
  by (induction xs) (simp_all add: sort_key_def insertBy_compareWaiting)

text \<open>
  Claim C2. For every store the waiting-queue projection of the code is the list of
  waiting tickets sorted by priority rank descending (high 3, medium 2, low 1), ties
  broken by \<open>createdAt\<close> ascending; for A (medium, created at 1), B (high, created at 2)
  and C (high, created at 0) the projection is [C, B, A].
\<close>

theorem waitingQueue_is_spec_order:
  "waitingQueue tickets = waitingQueue_spec tickets
   \<and> waitingQueue [mkTicket ''A'' Medium 1, mkTicket ''B'' High 2, mkTicket ''C'' High 0]
       = [mkTicket ''C'' High 0, mkTicket ''B'' High 2, mkTicket ''A'' Medium 1]"
proof
  show "waitingQueue tickets = waitingQueue_spec tickets"
    by (simp add: waitingQueue_def sortWaitingQueue_def waitingQueue_spec_def
          sortBy_compareWaiting)
  show "waitingQueue [mkTicket ''A'' Medium 1, mkTicket ''B'' High 2, mkTicket ''C'' High 0]
       = [mkTicket ''C'' High 0, mkTicket ''B'' High 2, mkTicket ''A'' Medium 1]"
    by (simp add: waitingQueue_def sortWaitingQueue_def mkTicket_def compareWaiting_def)
qed

section \<open>Identifiers and single-ticket updates\<close>

text \<open>
  The handlers select the ticket to change by \<open>ticket_id\<close>. In a store whose identifiers
  are pairwise distinct, mapping over the store with an identifier test is an update
  at one index.
\<close>

lemma map_ids_upd:
  "(\<And>t. ticket_id (g t) = ticket_id t) \<Longrightarrow> map ticket_id (map (\<lambda>t. if P t then g t else t) s) = map ticket_id s"
  by (induction s) simp_all

lemma map_at_id:
  "distinct (map ticket_id s) \<Longrightarrow> i < length s \<Longrightarrow>
   map (\<lambda>t. if ticket_id t = ticket_id (s ! i) then g t else t) s = s[i := g (s ! i)]"
proof (induction s arbitrary: i)
  case Nil
  then show ?case by simp
next
  case (Cons a s)
  show ?case
  proof (cases i)
    case 0
    have "\<forall>t\<in>set s. ticket_id t \<noteq> ticket_id a" using Cons.prems(1) by (metis distinct.simps(2) image_eqI list.simps(9) set_map)
    then have "map (\<lambda>t. if ticket_id t = ticket_id a then g t else t) s = s"
      by (induction s) simp_all
    with 0 show ?thesis by simp
  next
    case (Suc j)
    then have j: "j < length s" using Cons.prems(2) by simp
    have "ticket_id (s ! j) \<noteq> ticket_id a" using Cons.prems(1) nth_mem[OF j] by (metis distinct.simps(2) image_eqI list.simps(9) set_map)
    moreover have "map (\<lambda>t. if ticket_id t = ticket_id (s ! j) then g t else t) s = s[j := g (s ! j)]"
      using Cons.IH[OF _ j] Cons.prems(1) by simp
    ultimately show ?thesis using Suc by simp
  qed
qed

lemma map_no_id:
  "i \<notin> set (map ticket_id s) \<Longrightarrow> map (\<lambda>t. if ticket_id t = i then g t else t) s = s"
  by (induction s) auto

lemma inProgress_None_iff:
  "inProgress s = None \<longleftrightarrow> (\<forall>t\<in>set s. status t \<noteq> In_progress)"
  by (auto simp: inProgress_def find_None_iff)

lemma inProgress_SomeD:
  "inProgress s = Some ip \<Longrightarrow> ip \<in> set s \<and> status ip = In_progress"
  by (auto simp: inProgress_def find_Some_iff)

lemma set_insertBy: "set (insertBy cmp x ys) = insert x (set ys)"
  by (induction ys) auto

lemma set_sortBy: "set (sortBy cmp xs) = set xs"
  by (induction xs) (simp_all add: set_insertBy)

lemma set_waitingQueue: "set (waitingQueue s) = {t \<in> set s. status t = Waiting}"
  by (simp add: waitingQueue_def sortWaitingQueue_def set_sortBy)

lemma waitingQueue_head:
  "waitingQueue s = h # rest \<Longrightarrow> h \<in> set s \<and> status h = Waiting"
  using set_waitingQueue[of s] by auto

lemma callNext_ids: "map ticket_id (callNext now s) = map ticket_id s"
  by (simp add: callNext_def map_ids_upd split: option.splits list.splits)

lemma markDone_ids: "map ticket_id (markDone now d s) = map ticket_id s"
  by (simp add: markDone_def map_ids_upd split: option.splits)

lemma markSkipped_ids: "map ticket_id (markSkipped s) = map ticket_id s"
  by (simp add: markSkipped_def map_ids_upd split: option.splits)

lemma bumpPriority_ids: "map ticket_id (bumpPriority i s) = map ticket_id s"
  by (induction s) (simp_all add: bumpPriority_def)

lemma step_distinct:
  "distinct (map ticket_id s) \<Longrightarrow> uuid_fresh op s \<Longrightarrow> distinct (map ticket_id (step op s))"
  by (cases op)
     (auto simp: callNext_ids markDone_ids markSkipped_ids bumpPriority_ids
        createTicket_def resetAll_def Let_def)

lemma reachable_distinct: "reachable s \<Longrightarrow> distinct (map ticket_id s)"
  by (induction rule: reachable.induct) (simp_all add: step_distinct)

lemma callNext_upd:
  assumes "distinct (map ticket_id s)" "inProgress s = None" "waitingQueue s = h # rest"
  shows "\<exists>i<length s. s ! i = h \<and>
           callNext now s = s[i := h\<lparr>status := In_progress, startedAt := Some now\<rparr>]"
proof -
  from waitingQueue_head[OF assms(3)] obtain i where i: "i < length s" "s ! i = h"
    by (auto simp: in_set_conv_nth)
  have "callNext now s = s[i := h\<lparr>status := In_progress, startedAt := Some now\<rparr>]"
    using map_at_id[OF assms(1) i(1), of "\<lambda>t. t\<lparr>status := In_progress, startedAt := Some now\<rparr>"]
      assms(2,3) i(2)
    by (simp add: callNext_def)
  with i show ?thesis by blast
qed

lemma callNext_noop:
  "inProgress s \<noteq> None \<or> waitingQueue s = [] \<Longrightarrow> callNext now s = s"
  by (auto simp: callNext_def split: option.splits list.splits)

lemma markDone_upd:
  assumes "distinct (map ticket_id s)" "inProgress s = Some ip"
  shows "\<exists>i<length s. s ! i = ip \<and>
           markDone now d s = s[i := ip\<lparr>status := Done, doneAt := Some now, result := Some (trim d)\<rparr>]"
proof -
  from inProgress_SomeD[OF assms(2)] obtain i where i: "i < length s" "s ! i = ip"
    by (auto simp: in_set_conv_nth)
  have "markDone now d s = s[i := ip\<lparr>status := Done, doneAt := Some now, result := Some (trim d)\<rparr>]"
    using map_at_id[OF assms(1) i(1), of "\<lambda>t. t\<lparr>status := Done, doneAt := Some now, result := Some (trim d)\<rparr>"]
      assms(2) i(2)
    by (simp add: markDone_def)
  with i show ?thesis by blast
qed

lemma markSkipped_upd:
  assumes "distinct (map ticket_id s)" "inProgress s = Some ip"
  shows "\<exists>i<length s. s ! i = ip \<and> markSkipped s = s[i := ip\<lparr>status := Skipped\<rparr>]"
proof -
  from inProgress_SomeD[OF assms(2)] obtain i where i: "i < length s" "s ! i = ip"
    by (auto simp: in_set_conv_nth)
  have "markSkipped s = s[i := ip\<lparr>status := Skipped\<rparr>]"
    using map_at_id[OF assms(1) i(1), of "\<lambda>t. t\<lparr>status := Skipped\<rparr>"] assms(2) i(2)
    by (simp add: markSkipped_def)
  with i show ?thesis by blast
qed

lemma bumpPriority_alt:
  "bumpPriority k s =
     map (\<lambda>t. if ticket_id t = k
               then t\<lparr>priority := (if priority t = Low then Medium
                                    else if priority t = Medium then High else High)\<rparr>
               else t) s"
  by (induction s) (simp_all add: bumpPriority_def)

lemma bumpPriority_upd:
  assumes "distinct (map ticket_id s)" "i < length s" "ticket_id (s ! i) = k"
  shows "bumpPriority k s =
           s[i := (s ! i)\<lparr>priority := (if priority (s ! i) = Low then Medium
                                       else if priority (s ! i) = Medium then High else High)\<rparr>]"
  using map_at_id[OF assms(1,2), of "\<lambda>t. t\<lparr>priority := (if priority t = Low then Medium
                                    else if priority t = Medium then High else High)\<rparr>"] assms(3)
  by (simp add: bumpPriority_alt)

lemma bumpPriority_absent:
  "k \<notin> set (map ticket_id s) \<Longrightarrow> bumpPriority k s = s"
  using map_no_id[of k s] by (simp add: bumpPriority_alt)

lemma filter_upd_le: "length (filter P (s[i := x])) \<le> Suc (length (filter P s))"
  by (induction s arbitrary: i) (auto split: nat.splits)

lemma filter_upd_not: "\<not> P x \<Longrightarrow> length (filter P (s[i := x])) \<le> length (filter P s)"
  by (induction s arbitrary: i) (auto split: nat.splits)

lemma filter_ip_empty: "inProgress s = None \<Longrightarrow> filter (\<lambda>t. status t = In_progress) s = []"
  by (simp add: inProgress_None_iff filter_empty_conv)

lemma bump_filter_len:
  "length (filter (\<lambda>t. status t = In_progress) (bumpPriority k s)) =
   length (filter (\<lambda>t. status t = In_progress) s)"
  by (induction s) (simp_all add: bumpPriority_def)

lemma step_ip_count:
  assumes "distinct (map ticket_id s)" "length (filter (\<lambda>t. status t = In_progress) s) \<le> 1"
  shows "length (filter (\<lambda>t. status t = In_progress) (step op s)) \<le> 1"
proof (cases op)
  case (Create u n a d p e)
  then show ?thesis using assms(2) by (simp add: createTicket_def Let_def)
next
  case (CallNext now)
  show ?thesis
  proof (cases "inProgress s = None \<and> waitingQueue s \<noteq> []")
    case True
    then obtain h rest where hr: "waitingQueue s = h # rest" by (cases "waitingQueue s") auto
    have ipn: "inProgress s = None" using True by simp
    from callNext_upd[OF assms(1) ipn hr, of now] obtain i where
      "callNext now s = s[i := h\<lparr>status := In_progress, startedAt := Some now\<rparr>]" by auto
    then show ?thesis using CallNext filter_ip_empty[of s] True
        filter_upd_le[of "\<lambda>t. status t = In_progress" s i "h\<lparr>status := In_progress, startedAt := Some now\<rparr>"]
      by simp
  next
    case False
    then show ?thesis using CallNext assms(2) callNext_noop[of s now] by auto
  qed
next
  case (Complete now d)
  show ?thesis
  proof (cases "inProgress s")
    case None
    then show ?thesis using Complete assms(2) by (simp add: markDone_def)
  next
    case (Some ip)
    from markDone_upd[OF assms(1) Some, of now d] obtain i where
      "markDone now d s = s[i := ip\<lparr>status := Done, doneAt := Some now, result := Some (trim d)\<rparr>]" by auto
    then show ?thesis using Complete assms(2)
        filter_upd_not[of "\<lambda>t. status t = In_progress" "ip\<lparr>status := Done, doneAt := Some now, result := Some (trim d)\<rparr>" s i]
      by simp
  qed
next
  case Skip
  show ?thesis
  proof (cases "inProgress s")
    case None
    then show ?thesis using Skip assms(2) by (simp add: markSkipped_def)
  next
    case (Some ip)
    from markSkipped_upd[OF assms(1) Some] obtain i where
      "markSkipped s = s[i := ip\<lparr>status := Skipped\<rparr>]" by auto
    then show ?thesis using Skip assms(2)
        filter_upd_not[of "\<lambda>t. status t = In_progress" "ip\<lparr>status := Skipped\<rparr>" s i]
      by simp
  qed
next
  case (Bump k)
  then show ?thesis using assms(2) by (simp add: bump_filter_len)
next
  case (Reset ok)
  then show ?thesis using assms(2) by (simp add: resetAll_def)
qed


section \<open>At most one ticket in progress\<close>

text \<open>
  Claim C1. In every store reachable from the empty store by create, call-next,
  complete, skip, bump-priority and reset, at most one ticket has status in_progress.
\<close>

theorem at_most_one_in_progress:
  "reachable s \<Longrightarrow> length (filter (\<lambda>t. status t = In_progress) s) \<le> 1"
proof (induction rule: reachable.induct)
  case reachable_init
  show ?case by simp
next
  case (reachable_step s op)
  then show ?case using step_ip_count[OF reachable_distinct] by blast
qed

theorem at_most_one_in_progress_witness:
  "reachable (step (CallNext 7) (step (Create (ascii ''u1'') 3 (ascii ''a'') (ascii ''b'') High (Finite 5)) []))
   \<and> length (filter (\<lambda>t. status t = In_progress)
        (step (CallNext 7) (step (Create (ascii ''u1'') 3 (ascii ''a'') (ascii ''b'') High (Finite 5)) []))) \<le> 1"
proof -
  have r: "reachable (step (CallNext 7) (step (Create (ascii ''u1'') 3 (ascii ''a'') (ascii ''b'') High (Finite 5)) []))"
    by (intro reachable_step reachable_init) simp_all
  from at_most_one_in_progress[OF r] r show ?thesis by blast
qed

section \<open>Call-next\<close>

text \<open>
  Claim C3. In a store (identifiers pairwise distinct) with no ticket in progress and
  a non-empty waiting queue, call-next changes exactly the head of the waiting-queue
  ordering: that one ticket, which was waiting, gets status in_progress and
  \<open>startedAt\<close> the current time, and the store is otherwise the same. With a ticket in
  progress, or with an empty waiting queue, call-next leaves the store unchanged.
\<close>

theorem callNext_effect:
  assumes "distinct (map ticket_id s)"
  shows "(inProgress s = None \<and> waitingQueue s = h # rest \<longrightarrow>
            (\<exists>i<length s. s ! i = h \<and> status h = Waiting \<and>
               callNext now s = s[i := h\<lparr>status := In_progress, startedAt := Some now\<rparr>]))
         \<and> (inProgress s \<noteq> None \<or> waitingQueue s = [] \<longrightarrow> callNext now s = s)"
  using callNext_upd[OF assms, of h rest now] callNext_noop[of s now] waitingQueue_head[of s h rest]
  by auto

theorem callNext_effect_witness:
  "distinct (map ticket_id [mkTicket ''A'' Medium 1, mkTicket ''B'' High 2])
   \<and> inProgress [mkTicket ''A'' Medium 1, mkTicket ''B'' High 2] = None
   \<and> waitingQueue [mkTicket ''A'' Medium 1, mkTicket ''B'' High 2]
       = [mkTicket ''B'' High 2, mkTicket ''A'' Medium 1]
   \<and> callNext 9 [mkTicket ''A'' Medium 1, mkTicket ''B'' High 2]
       = [mkTicket ''A'' Medium 1, (mkTicket ''B'' High 2)\<lparr>status := In_progress, startedAt := Some 9\<rparr>]
   \<and> callNext 10 (callNext 9 [mkTicket ''A'' Medium 1, mkTicket ''B'' High 2])
       = callNext 9 [mkTicket ''A'' Medium 1, mkTicket ''B'' High 2]"
  using callNext_effect[of "[mkTicket ''A'' Medium 1, mkTicket ''B'' High 2]"
      "mkTicket ''B'' High 2" "[mkTicket ''A'' Medium 1]" 9]
    callNext_effect[of "callNext 9 [mkTicket ''A'' Medium 1, mkTicket ''B'' High 2]" "mkTicket ''A'' Medium 1" "[]" 10]
  by (simp add: mkTicket_def ascii_def inProgress_def waitingQueue_def sortWaitingQueue_def
        compareWaiting_def callNext_def)

section \<open>Display numbers\<close>

text \<open>
  \<open>pad3\<close> of a non-negative integer is a string of decimal digits that \<open>parseInt10\<close>
  reads back, and the fold of \<open>maxNumber\<close> is the maximum of 0 and the numeric values of
  the numbers in the store.
\<close>

lemma digitsValue_snoc: "digitsValue (ds @ [c]) = digitsValue ds * 10 + int (c - 48)"
  by (simp add: digitsValue_def)

lemma digitsOf_digits: "\<forall>c\<in>set (digitsOf n). isDigit c"
proof (induction n rule: digitsOf.induct)
  case (1 n)
  show ?case
  proof (cases "n < 10")
    case True
    then show ?thesis by (subst digitsOf.simps) (simp add: isDigit_def)
  next
    case False
    have "n mod 10 < 10" by simp
    then have "isDigit (48 + n mod 10)" unfolding isDigit_def by linarith
    with False 1 show ?thesis by (subst digitsOf.simps) simp
  qed
qed

lemma digitsOf_nonempty: "digitsOf n \<noteq> []"
  by (subst digitsOf.simps) simp

lemma digitsValue_digitsOf: "digitsValue (digitsOf n) = int n"
proof (induction n rule: digitsOf.induct)
  case (1 n)
  show ?case
  proof (cases "n < 10")
    case True
    then show ?thesis by (subst digitsOf.simps) (simp add: digitsValue_def)
  next
    case False
    with 1 have "digitsValue (digitsOf (n div 10)) = int (n div 10)" by simp
    with False show ?thesis
      by (subst digitsOf.simps) (simp add: digitsValue_snoc zdiv_int zmod_int)
  qed
qed

lemma digitsValue_zeros: "digitsValue (replicate k 48 @ ds) = digitsValue ds"
  by (induction k) (simp_all add: digitsValue_def)

lemma digit_not_space: "isDigit c \<Longrightarrow> \<not> isWhiteSpace c"
  by (auto simp: isDigit_def isWhiteSpace_def)

lemma parseInt10_digits:
  assumes "ds \<noteq> []" "\<forall>c\<in>set ds. isDigit c"
  shows "parseInt10 ds = Some (digitsValue ds)"
proof -
  obtain c r where ds: "ds = c # r" using assms(1) by (cases ds) auto
  have c: "isDigit c" using assms(2) ds by simp
  have 1: "dropWhile isWhiteSpace ds = ds" using ds digit_not_space[OF c] by simp
  have 2: "c \<noteq> 45 \<and> c \<noteq> 43" using c by (auto simp: isDigit_def)
  have 3: "takeWhile isDigit ds = ds" using assms(2) by (simp add: takeWhile_eq_all_conv)
  show ?thesis using 1 2 3 ds by (simp add: parseInt10_def)
qed

lemma pad3_nonneg: "0 \<le> n \<Longrightarrow> pad3 n = replicate (3 - length (digitsOf (nat n))) 48 @ digitsOf (nat n)"
  by (simp add: pad3_def padStart_def numberToString_def)

lemma parseInt10_pad3: "0 \<le> n \<Longrightarrow> parseInt10 (pad3 n) = Some n"
proof -
  assume n: "0 \<le> n"
  let ?ds = "replicate (3 - length (digitsOf (nat n))) 48 @ digitsOf (nat n)"
  have "?ds \<noteq> []" using digitsOf_nonempty by simp
  moreover have "\<forall>c\<in>set ?ds. isDigit c" using digitsOf_digits[of "nat n"] by (auto simp: isDigit_def)
  ultimately have "parseInt10 ?ds = Some (digitsValue ?ds)" by (rule parseInt10_digits)
  then show ?thesis using n by (simp add: pad3_nonneg digitsValue_zeros digitsValue_digitsOf)
qed


lemma foldl_max_eq:
  "foldl (\<lambda>acc t. case f t of None \<Rightarrow> acc | Some n \<Rightarrow> max acc n) (a::int) ts
     = Max (set (a # List.map_filter f ts))"
proof (induction ts arbitrary: a)
  case Nil
  then show ?case by (simp add: List.map_filter_simps)
next
  case (Cons t ts)
  show ?case
  proof (cases "f t")
    case None
    then show ?thesis using Cons.IH[of a] by (simp add: List.map_filter_simps)
  next
    case (Some n)
    have "Max (insert (max a n) (set (List.map_filter f ts)))
            = Max (insert a (insert n (set (List.map_filter f ts))))"
      by (cases "set (List.map_filter f ts) = {}") (simp_all add: max.assoc)
    then show ?thesis using Some Cons.IH[of "max a n"] by (simp add: List.map_filter_simps)
  qed
qed

lemma maxNumber_eq_Max:
  "maxNumber tickets = Max (set (0 # List.map_filter (\<lambda>t. parseInt10 (number t)) tickets))"
  unfolding maxNumber_def by (rule foldl_max_eq)

lemma maxNumber_ge:
  assumes "t \<in> set s" "parseInt10 (number t) = Some n"
  shows "n \<le> maxNumber s"
proof -
  have "n \<in> set (0 # List.map_filter (\<lambda>t. parseInt10 (number t)) s)"
    using assms by (force simp: List.map_filter_def)
  then show ?thesis unfolding maxNumber_eq_Max by (intro Max_ge) simp_all
qed

lemma maxNumber_nonneg: "0 \<le> maxNumber s"
  unfolding maxNumber_eq_Max by (intro Max_ge) simp_all

lemma pad3_1: "pad3 1 = ascii ''001''"
  by (simp add: pad3_def padStart_def numberToString_def digitsOf.simps ascii_def numeral_2_eq_2)


lemma nextNumber_empty: "nextNumber [] = ascii ''001''"
  by (simp add: nextNumber_def maxNumber_def pad3_1)

lemma createTicket_accepted:
  "trim a \<noteq> [] \<Longrightarrow> trim d \<noteq> [] \<Longrightarrow>
   createTicket u now a d p e s =
     s @ [\<lparr>ticket_id = u, number = nextNumber s, name = trim a, desc = trim d,
           priority = p, etaMinutes = (case e of Finite q \<Rightarrow> max 1 \<lfloor>q\<rfloor> | _ \<Rightarrow> 15),
           status = Waiting, createdAt = now, startedAt = None, doneAt = None, result = None\<rparr>]"
  by (simp add: createTicket_def Let_def)

lemma createTicket_rejected:
  "trim a = [] \<or> trim d = [] \<Longrightarrow> createTicket u now a d p e s = s"
  by (auto simp: createTicket_def Let_def)


text \<open>
  No handler but create touches a \<open>number\<close>, and a create hands out a number that reads
  back as an integer not below 1. So in a store reached from the empty store every
  number is numeric and positive, and the 0 the fold starts from is not the maximum
  unless the store is empty.
\<close>

lemma map_numbers_upd:
  "(\<And>t. number (g t) = number t) \<Longrightarrow> map number (map (\<lambda>t. if P t then g t else t) s) = map number s"
  by (induction s) simp_all

lemma callNext_numbers: "map number (callNext now s) = map number s"
  by (simp add: callNext_def map_numbers_upd split: option.splits list.splits)

lemma markDone_numbers: "map number (markDone now d s) = map number s"
  by (simp add: markDone_def map_numbers_upd split: option.splits)

lemma markSkipped_numbers: "map number (markSkipped s) = map number s"
  by (simp add: markSkipped_def map_numbers_upd split: option.splits)

lemma bumpPriority_numbers: "map number (bumpPriority i s) = map number s"
  by (induction s) (simp_all add: bumpPriority_def)







section \<open>Numbers across a history\<close>

lemma length_step_noncreate:
  "\<not> isCreate op \<Longrightarrow> \<not> isReset op \<Longrightarrow> length (step op s) = length s"
  by (cases op) (simp_all add: callNext_def markDone_def markSkipped_def bumpPriority_def
      resetAll_def split: option.splits list.splits)

lemma step_numbers_append:
  "\<not> isReset op \<Longrightarrow>
   map number (step op s)
     = map number s @ (if isCreate op then map number (drop (length s) (step op s)) else [])"
proof (cases op)
  case (Create u n a d p e)
  then show ?thesis by (cases "trim a = [] \<or> trim d = []") (auto simp: createTicket_def Let_def)
qed (simp_all add: callNext_numbers markDone_numbers markSkipped_numbers bumpPriority_numbers
      resetAll_def)

lemma run_numbers_append:
  "\<not> list_ex isReset ops \<Longrightarrow> map number (run ops s) = map number s @ assignedNumbers ops s"
proof (induction ops arbitrary: s)
  case Nil
  show ?case by simp
next
  case (Cons op ops)
  then have "map number (run ops (step op s)) = map number (step op s) @ assignedNumbers ops (step op s)"
    by simp
  moreover have "map number (step op s)
     = map number s @ (if isCreate op then map number (drop (length s) (step op s)) else [])"
    using Cons.prems by (intro step_numbers_append) simp
  ultimately show ?case by simp
qed

lemma sorted_wrt_snoc_less:
  "sorted_wrt (<) (ns::int list) \<Longrightarrow> \<forall>n\<in>set ns. n < m \<Longrightarrow> sorted_wrt (<) (ns @ [m])"
  by (simp add: sorted_wrt_append)

lemma parse_numbers_cong:
  assumes "map number s' = map number s"
  shows "map (\<lambda>t. parseInt10 (number t)) s' = map (\<lambda>t. parseInt10 (number t)) s"
proof -
  have "map (\<lambda>t. parseInt10 (number t)) s' = map parseInt10 (map number s')"
    by (simp add: comp_def)
  also have "\<dots> = map parseInt10 (map number s)" using assms by simp
  also have "\<dots> = map (\<lambda>t. parseInt10 (number t)) s" by (simp add: comp_def)
  finally show ?thesis .
qed

lemma step_numbers_sorted:
  assumes "map (\<lambda>t. parseInt10 (number t)) s = map Some ns" "sorted_wrt (<) ns"
  shows "\<exists>ns'. map (\<lambda>t. parseInt10 (number t)) (step op s) = map Some ns' \<and> sorted_wrt (<) ns'"
proof (cases op)
  case (Create u now a d p e)
  show ?thesis
  proof (cases "trim a = [] \<or> trim d = []")
    case True
    then show ?thesis using Create assms createTicket_rejected[of a d u now p e s] by auto
  next
    case False
    let ?m = "maxNumber s + 1"
    have "\<forall>n\<in>set ns. n < ?m"
    proof
      fix n assume "n \<in> set ns"
      then have "Some n \<in> set (map (\<lambda>t. parseInt10 (number t)) s)" using assms(1) by simp
      then obtain t where "t \<in> set s" "parseInt10 (number t) = Some n" by auto
      then have "n \<le> maxNumber s" by (rule maxNumber_ge)
      then show "n < ?m" by simp
    qed
    then have srt: "sorted_wrt (<) (ns @ [?m])" using assms(2) by (rule sorted_wrt_snoc_less[rotated])
    have "0 \<le> ?m" using maxNumber_nonneg[of s] by simp
    then have "parseInt10 (nextNumber s) = Some ?m"
      unfolding nextNumber_def by (rule parseInt10_pad3)
    then have "map (\<lambda>t. parseInt10 (number t)) (step op s) = map Some (ns @ [?m])"
      using Create False assms(1) by (simp add: createTicket_accepted)
    with srt show ?thesis by blast
  qed
next
  case (CallNext now)
  then have "map number (step op s) = map number s" by (simp add: callNext_numbers)
  then show ?thesis using assms parse_numbers_cong[of "step op s" s] by auto
next
  case (Complete now d)
  then have "map number (step op s) = map number s" by (simp add: markDone_numbers)
  then show ?thesis using assms parse_numbers_cong[of "step op s" s] by auto
next
  case Skip
  then have "map number (step op s) = map number s" by (simp add: markSkipped_numbers)
  then show ?thesis using assms parse_numbers_cong[of "step op s" s] by auto
next
  case (Bump k)
  then have "map number (step op s) = map number s" by (simp add: bumpPriority_numbers)
  then show ?thesis using assms parse_numbers_cong[of "step op s" s] by auto
next
  case (Reset ok)
  show ?thesis
  proof (cases ok)
    case True
    then have "step op s = []" using Reset by (simp add: resetAll_def)
    then show ?thesis by simp
  next
    case False
    then have "step op s = s" using Reset by (simp add: resetAll_def)
    then show ?thesis using assms by auto
  qed
qed

lemma run_numbers_sorted:
  "\<exists>ns. map (\<lambda>t. parseInt10 (number t)) s = map Some ns \<and> sorted_wrt (<) ns \<Longrightarrow>
   \<exists>ns. map (\<lambda>t. parseInt10 (number t)) (run ops s) = map Some ns \<and> sorted_wrt (<) ns"
proof (induction ops arbitrary: s)
  case Nil
  then show ?case by simp
next
  case (Cons op ops)
  from Cons.prems obtain ns where "map (\<lambda>t. parseInt10 (number t)) s = map Some ns" "sorted_wrt (<) ns"
    by blast
  then have "\<exists>ns'. map (\<lambda>t. parseInt10 (number t)) (step op s) = map Some ns' \<and> sorted_wrt (<) ns'"
    by (rule step_numbers_sorted)
  then show ?case using Cons.IH[of "step op s"] by simp
qed

lemma run_append: "run (xs @ ys) s = run ys (run xs s)"
  by (induction xs arbitrary: s) simp_all


text \<open>
  Claim C5, as stated, fails: the history create, reset, create hands out the number 001
  twice, so a number is reused by a later-created ticket after a reset.
\<close>

theorem number_reused_after_reset:
  "fresh_history
     [Create (ascii ''u1'') 10 (ascii ''a'') (ascii ''b'') Medium (Finite 15), Reset True,
      Create (ascii ''u2'') 20 (ascii ''c'') (ascii ''d'') Medium (Finite 15)] []
   \<and> assignedNumbers
     [Create (ascii ''u1'') 10 (ascii ''a'') (ascii ''b'') Medium (Finite 15), Reset True,
      Create (ascii ''u2'') 20 (ascii ''c'') (ascii ''d'') Medium (Finite 15)] []
     = [ascii ''001'', ascii ''001'']
   \<and> \<not> distinct (assignedNumbers
     [Create (ascii ''u1'') 10 (ascii ''a'') (ascii ''b'') Medium (Finite 15), Reset True,
      Create (ascii ''u2'') 20 (ascii ''c'') (ascii ''d'') Medium (Finite 15)] [])"
proof -
  have t: "trim (ascii ''a'') \<noteq> []" "trim (ascii ''b'') \<noteq> []"
    "trim (ascii ''c'') \<noteq> []" "trim (ascii ''d'') \<noteq> []"
    by (simp_all add: trim_def isWhiteSpace_def ascii_def)
  show ?thesis
    by (simp add: createTicket_accepted[OF t(1,2)] createTicket_accepted[OF t(3,4)]
        resetAll_def nextNumber_empty)
qed

text \<open>
  Claim C5, amended. After any history from the empty store, the numbers of the tickets
  in the store followed by the numbers handed out by any continuation that contains no
  confirmed reset are strictly increasing in numeric value, hence pairwise distinct:
  numbers are unique and increasing among the tickets created since the last reset.
\<close>

theorem numbers_increase_until_reset:
  assumes "\<not> list_ex isReset post"
  shows "\<exists>ns. map parseInt10 (map number (run pre []) @ assignedNumbers post (run pre [])) = map Some ns
            \<and> sorted_wrt (<) ns
            \<and> distinct (map number (run pre []) @ assignedNumbers post (run pre []))"
proof -
  have "\<exists>ns. map (\<lambda>t. parseInt10 (number t)) (run (pre @ post) []) = map Some ns \<and> sorted_wrt (<) ns"
    by (rule run_numbers_sorted) simp
  then obtain ns where ns: "map parseInt10 (map number (run post (run pre []))) = map Some ns"
    "sorted_wrt (<) ns" by (auto simp: run_append comp_def)
  have eq: "map number (run post (run pre [])) = map number (run pre []) @ assignedNumbers post (run pre [])"
    using assms by (rule run_numbers_append)
  have "distinct ns" using ns(2) by (simp add: strict_sorted_iff)
  then have "distinct (map Some ns)" by (simp add: distinct_map)
  then have "distinct (map parseInt10 (map number (run post (run pre []))))" using ns(1) by simp
  then have "distinct (map number (run post (run pre [])))" using distinct_map by blast
  with ns eq show ?thesis by auto
qed

theorem numbers_increase_until_reset_witness:
  "\<not> list_ex isReset
       [Create (ascii ''u2'') 20 (ascii ''c'') (ascii ''d'') Medium (Finite 15),
        Create (ascii ''u3'') 30 (ascii ''e'') (ascii ''f'') High NaN]
   \<and> distinct (map number (run [Create (ascii ''u1'') 10 (ascii ''a'') (ascii ''b'') Medium (Finite 15), Reset True] [])
       @ assignedNumbers
           [Create (ascii ''u2'') 20 (ascii ''c'') (ascii ''d'') Medium (Finite 15),
            Create (ascii ''u3'') 30 (ascii ''e'') (ascii ''f'') High NaN]
           (run [Create (ascii ''u1'') 10 (ascii ''a'') (ascii ''b'') Medium (Finite 15), Reset True] []))"
proof -
  have h: "\<not> list_ex isReset
       [Create (ascii ''u2'') 20 (ascii ''c'') (ascii ''d'') Medium (Finite 15),
        Create (ascii ''u3'') 30 (ascii ''e'') (ascii ''f'') High NaN]" by simp
  from numbers_increase_until_reset[OF h,
      of "[Create (ascii ''u1'') 10 (ascii ''a'') (ascii ''b'') Medium (Finite 15), Reset True]"] h
  show ?thesis by blast
qed

section \<open>Terminal tickets\<close>

text \<open>
  A ticket that is done or skipped is never the head of the waiting queue nor the ticket
  in progress, so call-next, complete and skip leave its record alone; \<open>bumpPriority\<close>
  replaces the record that carries the identifier it is given.
\<close>

lemma length_step_ge: "\<not> isReset op \<Longrightarrow> length s \<le> length (step op s)"
  by (cases op)
     (simp_all add: createTicket_def Let_def callNext_def markDone_def markSkipped_def
        bumpPriority_def resetAll_def split: option.splits list.splits)

lemma step_terminal:
  assumes d: "distinct (map ticket_id s)" and nr: "\<not> isReset op" and i: "i < length s"
    and tm: "status (s ! i) = Done \<or> status (s ! i) = Skipped"
  shows "step op s ! i = (s ! i)\<lparr>priority := priority (step op s ! i)\<rparr>
       \<and> (op \<noteq> Bump (ticket_id (s ! i)) \<longrightarrow> step op s ! i = s ! i)"
proof -
  have same: "step op s ! i = s ! i \<Longrightarrow> ?thesis" by simp
  show ?thesis
  proof (cases op)
    case (Create u now a de p e)
    have "step op s ! i = s ! i"
      using Create i by (simp add: createTicket_def Let_def nth_append)
    then show ?thesis by (rule same)
  next
    case (CallNext now)
    show ?thesis
    proof (cases "inProgress s = None \<and> waitingQueue s \<noteq> []")
      case True
      then obtain h rest where hr: "waitingQueue s = h # rest" by (cases "waitingQueue s") auto
      have ipn: "inProgress s = None" using True by simp
      from callNext_upd[OF d ipn hr, of now] obtain j where
        j: "s ! j = h" "callNext now s = s[j := h\<lparr>status := In_progress, startedAt := Some now\<rparr>]"
        by auto
      have "status h = Waiting" using waitingQueue_head[OF hr] by simp
      then have "j \<noteq> i" using j(1) tm by auto
      then have "step op s ! i = s ! i" using CallNext j(2) by simp
      then show ?thesis by (rule same)
    next
      case False
      then have "step op s ! i = s ! i" using CallNext callNext_noop[of s now] by auto
      then show ?thesis by (rule same)
    qed
  next
    case (Complete now dr)
    show ?thesis
    proof (cases "inProgress s")
      case None
      then have "step op s ! i = s ! i" using Complete by (simp add: markDone_def)
      then show ?thesis by (rule same)
    next
      case (Some ip)
      from markDone_upd[OF d Some, of now dr] obtain j where
        j: "s ! j = ip"
        "markDone now dr s = s[j := ip\<lparr>status := Done, doneAt := Some now, result := Some (trim dr)\<rparr>]"
        by auto
      have "status ip = In_progress" using inProgress_SomeD[OF Some] by simp
      then have "j \<noteq> i" using j(1) tm by auto
      then have "step op s ! i = s ! i" using Complete j(2) by simp
      then show ?thesis by (rule same)
    qed
  next
    case Skip
    show ?thesis
    proof (cases "inProgress s")
      case None
      then have "step op s ! i = s ! i" using Skip by (simp add: markSkipped_def)
      then show ?thesis by (rule same)
    next
      case (Some ip)
      from markSkipped_upd[OF d Some] obtain j where
        j: "s ! j = ip" "markSkipped s = s[j := ip\<lparr>status := Skipped\<rparr>]"
        by auto
      have "status ip = In_progress" using inProgress_SomeD[OF Some] by simp
      then have "j \<noteq> i" using j(1) tm by auto
      then have "step op s ! i = s ! i" using Skip j(2) by simp
      then show ?thesis by (rule same)
    qed
  next
    case (Bump k)
    show ?thesis
    proof (cases "k = ticket_id (s ! i)")
      case True
      then show ?thesis using Bump i bumpPriority_upd[OF d i, of k] by simp
    next
      case False
      then have "step op s ! i = s ! i" using Bump i by (simp add: bumpPriority_alt)
      then show ?thesis by (rule same)
    qed
  next
    case (Reset ok)
    then have "step op s ! i = s ! i" using nr by (simp add: resetAll_def)
    then show ?thesis by (rule same)
  qed
qed

lemma run_terminal:
  assumes "distinct (map ticket_id s)" "fresh_history ops s" "\<not> list_ex isReset ops"
    "i < length s" "status (s ! i) = Done \<or> status (s ! i) = Skipped"
  shows "i < length (run ops s)
       \<and> run ops s ! i = (s ! i)\<lparr>priority := priority (run ops s ! i)\<rparr>
       \<and> (Bump (ticket_id (s ! i)) \<notin> set ops \<longrightarrow> run ops s ! i = s ! i)"
  using assms
proof (induction ops arbitrary: s)
  case Nil
  then show ?case by simp
next
  case (Cons op ops)
  let ?s' = "step op s"
  have nr: "\<not> isReset op" and nrs: "\<not> list_ex isReset ops" using Cons.prems(3) by simp_all
  have fr: "uuid_fresh op s" and frs: "fresh_history ops ?s'" using Cons.prems(2) by simp_all
  have d': "distinct (map ticket_id ?s')" using Cons.prems(1) fr by (rule step_distinct)
  have i': "i < length ?s'" using length_step_ge[OF nr, of s] Cons.prems(4) by simp
  from step_terminal[OF Cons.prems(1) nr Cons.prems(4,5)]
  have st: "?s' ! i = (s ! i)\<lparr>priority := priority (?s' ! i)\<rparr>"
    and st2: "op \<noteq> Bump (ticket_id (s ! i)) \<Longrightarrow> ?s' ! i = s ! i" by simp_all
  have tm': "status (?s' ! i) = Done \<or> status (?s' ! i) = Skipped"
    using Cons.prems(5) by (subst st, simp)+
  have id': "ticket_id (?s' ! i) = ticket_id (s ! i)" by (subst st) simp
  from Cons.IH[OF d' frs nrs i' tm']
  have ih1: "i < length (run ops ?s')"
    and ih2: "run ops ?s' ! i = (?s' ! i)\<lparr>priority := priority (run ops ?s' ! i)\<rparr>"
    and ih3: "Bump (ticket_id (?s' ! i)) \<notin> set ops \<Longrightarrow> run ops ?s' ! i = ?s' ! i" by simp_all
  have a: "run ops ?s' ! i = (s ! i)\<lparr>priority := priority (run ops ?s' ! i)\<rparr>"
    by (subst ih2, subst st) simp
  have b: "Bump (ticket_id (s ! i)) \<notin> set (op # ops) \<Longrightarrow> run ops ?s' ! i = s ! i"
    using st2 ih3 id' by auto
  show ?case using ih1 a b by simp
qed

lemma trim_ab: "trim (ascii ''a'') \<noteq> []" "trim (ascii ''b'') \<noteq> []"
  by (simp_all add: trim_def isWhiteSpace_def ascii_def)

text \<open>
  The page offers bump-priority on the rows of the waiting queue only, and in a store with
  pairwise distinct identifiers the identifier of a waiting ticket is not that of a
  ticket that is done or skipped.
\<close>

lemma bump_rendered_not_terminal:
  assumes d: "distinct (map ticket_id s)" and i: "i < length s"
    and tm: "status (s ! i) = Done \<or> status (s ! i) = Skipped"
    and br: "bump_rendered op s"
  shows "op \<noteq> Bump (ticket_id (s ! i))"
proof
  assume "op = Bump (ticket_id (s ! i))"
  then have "ticket_id (s ! i) \<in> set (map ticket_id (waitingQueue s))" using br by simp
  then obtain t where t: "t \<in> set (waitingQueue s)" "ticket_id t = ticket_id (s ! i)" by auto
  then have ts: "t \<in> set s" and w: "status t = Waiting" by (simp_all add: set_waitingQueue)
  have "inj_on ticket_id (set s)" using d by (simp add: distinct_map)
  then have "t = s ! i" using ts nth_mem[OF i] t(2) by (auto dest: inj_onD)
  then show False using w tm by simp
qed

lemma run_terminal_page:
  assumes "distinct (map ticket_id s)" "page_history ops s" "\<not> list_ex isReset ops"
    "i < length s" "status (s ! i) = Done \<or> status (s ! i) = Skipped"
  shows "i < length (run ops s) \<and> run ops s ! i = s ! i"
  using assms
proof (induction ops arbitrary: s)
  case Nil
  then show ?case by simp
next
  case (Cons op ops)
  let ?s' = "step op s"
  have nr: "\<not> isReset op" and nrs: "\<not> list_ex isReset ops" using Cons.prems(3) by simp_all
  have fr: "uuid_fresh op s" and br: "bump_rendered op s" and ph: "page_history ops ?s'"
    using Cons.prems(2) by simp_all
  have d': "distinct (map ticket_id ?s')" using Cons.prems(1) fr by (rule step_distinct)
  have i': "i < length ?s'" using length_step_ge[OF nr, of s] Cons.prems(4) by simp
  have "op \<noteq> Bump (ticket_id (s ! i))"
    using Cons.prems(1,4,5) br by (rule bump_rendered_not_terminal)
  then have same: "?s' ! i = s ! i"
    using step_terminal[OF Cons.prems(1) nr Cons.prems(4,5)] by simp
  have tm': "status (?s' ! i) = Done \<or> status (?s' ! i) = Skipped"
    using Cons.prems(5) by (simp only: same)
  from Cons.IH[OF d' ph nrs i' tm'] same show ?case by simp
qed

text \<open>
  Claim C6. Once a ticket of a store with pairwise distinct identifiers is done or
  skipped, no history of the page made of create, call-next, complete, skip and
  bump-priority changes any field of its record: the record stays at its index,
  unchanged, and so does its status. (The result of a done ticket was set by the
  completing transition itself, see \<open>markDone\<close>.)
\<close>

theorem terminal_ticket_never_changes:
  assumes "distinct (map ticket_id s)" "page_history ops s" "\<not> list_ex isReset ops"
    "i < length s" "status (s ! i) = Done \<or> status (s ! i) = Skipped"
  shows "i < length (run ops s)
       \<and> run ops s ! i = s ! i
       \<and> status (run ops s ! i) = status (s ! i)"
proof -
  from run_terminal_page[OF assms]
  have 1: "i < length (run ops s)" and 2: "run ops s ! i = s ! i" by simp_all
  then show ?thesis by simp
qed

theorem terminal_ticket_never_changes_witness:
  "distinct (map ticket_id
     [(mkTicket ''A'' Low 1)\<lparr>status := Done, startedAt := Some 2, doneAt := Some 3, result := Some []\<rparr>,
      mkTicket ''B'' Medium 4])
   \<and> page_history
     [Bump (ascii ''B''), CallNext 5, Complete 6 [],
      Create (ascii ''C'') 7 (ascii ''x'') (ascii ''y'') Low NaN]
     [(mkTicket ''A'' Low 1)\<lparr>status := Done, startedAt := Some 2, doneAt := Some 3, result := Some []\<rparr>,
      mkTicket ''B'' Medium 4]
   \<and> \<not> list_ex isReset
     [Bump (ascii ''B''), CallNext 5, Complete 6 [],
      Create (ascii ''C'') 7 (ascii ''x'') (ascii ''y'') Low NaN]
   \<and> status ([(mkTicket ''A'' Low 1)\<lparr>status := Done, startedAt := Some 2, doneAt := Some 3, result := Some []\<rparr>,
      mkTicket ''B'' Medium 4] ! 0) = Done
   \<and> run [Bump (ascii ''B''), CallNext 5, Complete 6 [],
           Create (ascii ''C'') 7 (ascii ''x'') (ascii ''y'') Low NaN]
        [(mkTicket ''A'' Low 1)\<lparr>status := Done, startedAt := Some 2, doneAt := Some 3, result := Some []\<rparr>,
         mkTicket ''B'' Medium 4] ! 0
       = (mkTicket ''A'' Low 1)\<lparr>status := Done, startedAt := Some 2, doneAt := Some 3, result := Some []\<rparr>"
proof -
  let ?s = "[(mkTicket ''A'' Low 1)\<lparr>status := Done, startedAt := Some 2, doneAt := Some 3, result := Some []\<rparr>,
      mkTicket ''B'' Medium 4]"
  let ?ops = "[Bump (ascii ''B''), CallNext 5, Complete 6 [],
      Create (ascii ''C'') 7 (ascii ''x'') (ascii ''y'') Low NaN]"
  have d: "distinct (map ticket_id ?s)" by (simp add: mkTicket_def ascii_def)
  have ph: "page_history ?ops ?s"
    by (simp add: mkTicket_def ascii_def waitingQueue_def sortWaitingQueue_def
        bumpPriority_def callNext_def markDone_def inProgress_def)
  have nr: "\<not> list_ex isReset ?ops" by simp
  have len: "0 < length ?s" by simp
  have st: "status (?s ! 0) = Done \<or> status (?s ! 0) = Skipped" by simp
  from terminal_ticket_never_changes[OF d ph nr len st]
  have "run ?ops ?s ! 0 = ?s ! 0" by simp
  then show ?thesis using d ph nr by simp
qed

section \<open>Complete\<close>

lemma set_upd_all: "\<forall>t\<in>set s. P t \<Longrightarrow> P x \<Longrightarrow> \<forall>t\<in>set (s[i := x]). P t"
  using set_update_subset_insert[of s i x] by auto

lemma step_not_done_unset:
  assumes d: "distinct (map ticket_id s)"
    and inv: "\<forall>t\<in>set s. status t \<noteq> Done \<longrightarrow> doneAt t = None \<and> result t = None"
  shows "\<forall>t\<in>set (step op s). status t \<noteq> Done \<longrightarrow> doneAt t = None \<and> result t = None"
proof (cases op)
  case (Create u now a de p e)
  then show ?thesis using inv by (auto simp: createTicket_def Let_def)
next
  case (CallNext now)
  show ?thesis
  proof (cases "inProgress s = None \<and> waitingQueue s \<noteq> []")
    case True
    then obtain h rest where hr: "waitingQueue s = h # rest" by (cases "waitingQueue s") auto
    have ipn: "inProgress s = None" using True by simp
    from callNext_upd[OF d ipn hr, of now] obtain j where
      j: "callNext now s = s[j := h\<lparr>status := In_progress, startedAt := Some now\<rparr>]" by auto
    have "h \<in> set s" "status h = Waiting" using waitingQueue_head[OF hr] by simp_all
    then have "doneAt h = None \<and> result h = None" using inv by auto
    then have "\<forall>t\<in>set (s[j := h\<lparr>status := In_progress, startedAt := Some now\<rparr>]).
        status t \<noteq> Done \<longrightarrow> doneAt t = None \<and> result t = None"
      by (intro set_upd_all[where P = "\<lambda>t. status t \<noteq> Done \<longrightarrow> doneAt t = None \<and> result t = None", OF inv]) simp
    then show ?thesis unfolding CallNext step.simps j .
  next
    case False
    then show ?thesis using CallNext inv callNext_noop[of s now] by auto
  qed
next
  case (Complete now dr)
  show ?thesis
  proof (cases "inProgress s")
    case None
    then show ?thesis using Complete inv by (simp add: markDone_def)
  next
    case (Some ip)
    from markDone_upd[OF d Some, of now dr] obtain j where
      j: "markDone now dr s = s[j := ip\<lparr>status := Done, doneAt := Some now, result := Some (trim dr)\<rparr>]"
      by auto
    have "\<forall>t\<in>set (s[j := ip\<lparr>status := Done, doneAt := Some now, result := Some (trim dr)\<rparr>]).
        status t \<noteq> Done \<longrightarrow> doneAt t = None \<and> result t = None"
      by (intro set_upd_all[where P = "\<lambda>t. status t \<noteq> Done \<longrightarrow> doneAt t = None \<and> result t = None", OF inv]) simp
    then show ?thesis unfolding Complete step.simps j .
  qed
next
  case Skip
  show ?thesis
  proof (cases "inProgress s")
    case None
    then show ?thesis using Skip inv by (simp add: markSkipped_def)
  next
    case (Some ip)
    from markSkipped_upd[OF d Some] obtain j where
      j: "markSkipped s = s[j := ip\<lparr>status := Skipped\<rparr>]" by auto
    have "ip \<in> set s" "status ip = In_progress" using inProgress_SomeD[OF Some] by simp_all
    then have "doneAt ip = None \<and> result ip = None" using inv by auto
    then have "\<forall>t\<in>set (s[j := ip\<lparr>status := Skipped\<rparr>]).
        status t \<noteq> Done \<longrightarrow> doneAt t = None \<and> result t = None"
      by (intro set_upd_all[where P = "\<lambda>t. status t \<noteq> Done \<longrightarrow> doneAt t = None \<and> result t = None", OF inv]) simp
    then show ?thesis unfolding Skip step.simps j .
  qed
next
  case (Bump k)
  then show ?thesis using inv by (auto simp: bumpPriority_def)
next
  case (Reset ok)
  then show ?thesis using inv by (simp add: resetAll_def)
qed

lemma reachable_not_done_unset:
  "reachable s \<Longrightarrow> \<forall>t\<in>set s. status t \<noteq> Done \<longrightarrow> doneAt t = None \<and> result t = None"
proof (induction rule: reachable.induct)
  case reachable_init
  show ?case by simp
next
  case (reachable_step s op)
  show ?case using step_not_done_unset[OF reachable_distinct[OF reachable_step.hyps(1)] reachable_step.IH] .
qed

text \<open>
  Claim C7, as stated, fails in one point: the stored result is not the supplied text
  but the supplied text trimmed; for the draft \<^verbatim>\<open>" ok "\<close> the result is \<^verbatim>\<open>"ok"\<close>.
\<close>

theorem markDone_trims_result:
  "map result (markDone 30 (ascii '' ok '')
      (run [Create (ascii ''u1'') 10 (ascii ''a'') (ascii ''b'') Low (Finite 15), CallNext 20] []))
     = [Some (ascii ''ok'')]
   \<and> map result (markDone 30 (ascii '' ok '')
      (run [Create (ascii ''u1'') 10 (ascii ''a'') (ascii ''b'') Low (Finite 15), CallNext 20] []))
     \<noteq> [Some (ascii '' ok '')]"
proof -
  have t: "trim (ascii '' ok '') = ascii ''ok''"
    by (simp add: trim_def isWhiteSpace_def ascii_def)
  have n: "ascii ''ok'' \<noteq> ascii '' ok ''"
    by (simp add: ascii_def)
  have s: "run [Create (ascii ''u1'') 10 (ascii ''a'') (ascii ''b'') Low (Finite 15), CallNext 20] []
      = [\<lparr>ticket_id = ascii ''u1'', number = nextNumber [], name = trim (ascii ''a''), desc = trim (ascii ''b''),
           priority = Low, etaMinutes = 15,
           status = In_progress, createdAt = 10, startedAt = Some 20, doneAt = None, result = None\<rparr>]"
    by (simp add: createTicket_accepted[OF trim_ab] callNext_def
        inProgress_def waitingQueue_def sortWaitingQueue_def)
  show ?thesis
    unfolding s by (simp add: markDone_def inProgress_def t n)
qed

text \<open>
  Claim C7, amended. In a reachable store with a ticket in progress, complete changes
  exactly that ticket: status done, \<open>doneAt\<close> the current time, \<open>result\<close> the supplied
  text trimmed of surrounding white space (possibly empty); before that its \<open>doneAt\<close> and
  \<open>result\<close> were unset. With no ticket in progress the store is unchanged. Once a
  ticket is done, no history without a confirmed reset changes its status, \<open>doneAt\<close>
  or \<open>result\<close>: they are set exactly once.
\<close>

theorem markDone_effect:
  assumes "reachable s"
  shows "(inProgress s = Some ip \<longrightarrow>
            (\<exists>i<length s. s ! i = ip \<and> doneAt ip = None \<and> result ip = None \<and>
               markDone now d s
                 = s[i := ip\<lparr>status := Done, doneAt := Some now, result := Some (trim d)\<rparr>]))
       \<and> (inProgress s = None \<longrightarrow> markDone now d s = s)
       \<and> (i < length s \<and> status (s ! i) = Done \<and> fresh_history ops s \<and> \<not> list_ex isReset ops \<longrightarrow>
            i < length (run ops s) \<and> status (run ops s ! i) = Done
            \<and> doneAt (run ops s ! i) = doneAt (s ! i) \<and> result (run ops s ! i) = result (s ! i))"
proof (intro conjI impI)
  have d: "distinct (map ticket_id s)" using assms by (rule reachable_distinct)
  {
    assume ip: "inProgress s = Some ip"
    have "ip \<in> set s" "status ip = In_progress" using inProgress_SomeD[OF ip] by simp_all
    then have "doneAt ip = None \<and> result ip = None"
      using reachable_not_done_unset[OF assms] by auto
    then show "\<exists>i<length s. s ! i = ip \<and> doneAt ip = None \<and> result ip = None \<and>
               markDone now d s
                 = s[i := ip\<lparr>status := Done, doneAt := Some now, result := Some (trim d)\<rparr>]"
      using markDone_upd[OF d ip, of now d] by auto
  }
  {
    assume "inProgress s = None"
    then show "markDone now d s = s" by (simp add: markDone_def)
  }
  {
    assume a: "i < length s \<and> status (s ! i) = Done \<and> fresh_history ops s \<and> \<not> list_ex isReset ops"
    then have "i < length (run ops s)
       \<and> run ops s ! i = (s ! i)\<lparr>priority := priority (run ops s ! i)\<rparr>
       \<and> (Bump (ticket_id (s ! i)) \<notin> set ops \<longrightarrow> run ops s ! i = s ! i)"
      by (intro run_terminal[OF d]) simp_all
    then have 1: "i < length (run ops s)"
      and 2: "run ops s ! i = (s ! i)\<lparr>priority := priority (run ops s ! i)\<rparr>" by simp_all
    show "i < length (run ops s)" by (rule 1)
    show "status (run ops s ! i) = Done" using a by (subst 2) simp
    show "doneAt (run ops s ! i) = doneAt (s ! i)" by (subst 2) simp
    show "result (run ops s ! i) = result (s ! i)" by (subst 2) simp
  }
qed

theorem markDone_effect_witness:
  "reachable (step (CallNext 20) (step (Create (ascii ''u1'') 10 (ascii ''a'') (ascii ''b'') Low (Finite 15)) []))
   \<and> inProgress (step (CallNext 20) (step (Create (ascii ''u1'') 10 (ascii ''a'') (ascii ''b'') Low (Finite 15)) []))
       = Some (step (CallNext 20) (step (Create (ascii ''u1'') 10 (ascii ''a'') (ascii ''b'') Low (Finite 15)) []) ! 0)
   \<and> map status (markDone 30 (ascii '' ok '')
        (step (CallNext 20) (step (Create (ascii ''u1'') 10 (ascii ''a'') (ascii ''b'') Low (Finite 15)) [])))
       = [Done]
   \<and> map doneAt (markDone 30 (ascii '' ok '')
        (step (CallNext 20) (step (Create (ascii ''u1'') 10 (ascii ''a'') (ascii ''b'') Low (Finite 15)) [])))
       = [Some 30]
   \<and> map result (markDone 30 (ascii '' ok '')
        (step (CallNext 20) (step (Create (ascii ''u1'') 10 (ascii ''a'') (ascii ''b'') Low (Finite 15)) [])))
       = [Some (trim (ascii '' ok ''))]
   \<and> reachable (step (Complete 30 (ascii '' ok ''))
        (step (CallNext 20) (step (Create (ascii ''u1'') 10 (ascii ''a'') (ascii ''b'') Low (Finite 15)) [])))
   \<and> status (step (Complete 30 (ascii '' ok ''))
        (step (CallNext 20) (step (Create (ascii ''u1'') 10 (ascii ''a'') (ascii ''b'') Low (Finite 15)) [])) ! 0)
       = Done
   \<and> fresh_history [Bump (ascii ''u1''), Complete 50 (ascii ''again'')]
        (step (Complete 30 (ascii '' ok ''))
          (step (CallNext 20) (step (Create (ascii ''u1'') 10 (ascii ''a'') (ascii ''b'') Low (Finite 15)) [])))
   \<and> \<not> list_ex isReset [Bump (ascii ''u1''), Complete 50 (ascii ''again'')]
   \<and> doneAt (run [Bump (ascii ''u1''), Complete 50 (ascii ''again'')]
        (step (Complete 30 (ascii '' ok ''))
          (step (CallNext 20) (step (Create (ascii ''u1'') 10 (ascii ''a'') (ascii ''b'') Low (Finite 15)) [])))
        ! 0) = Some 30
   \<and> result (run [Bump (ascii ''u1''), Complete 50 (ascii ''again'')]
        (step (Complete 30 (ascii '' ok ''))
          (step (CallNext 20) (step (Create (ascii ''u1'') 10 (ascii ''a'') (ascii ''b'') Low (Finite 15)) [])))
        ! 0) = Some (trim (ascii '' ok ''))"
proof -
  let ?S = "step (CallNext 20) (step (Create (ascii ''u1'') 10 (ascii ''a'') (ascii ''b'') Low (Finite 15)) [])"
  let ?D = "step (Complete 30 (ascii '' ok '')) ?S"
  let ?ops = "[Bump (ascii ''u1''), Complete 50 (ascii ''again'')]"
  have r: "reachable ?S"
    by (intro reachable_step reachable_init) simp_all
  have v: "?S = [\<lparr>ticket_id = ascii ''u1'', number = nextNumber [], name = trim (ascii ''a''),
           desc = trim (ascii ''b''), priority = Low, etaMinutes = 15,
           status = In_progress, createdAt = 10, startedAt = Some 20, doneAt = None, result = None\<rparr>]"
    by (simp add: createTicket_accepted[OF trim_ab] callNext_def
        inProgress_def waitingQueue_def sortWaitingQueue_def)
  have ip: "inProgress ?S = Some (?S ! 0)"
    unfolding v by (simp add: inProgress_def)
  from markDone_effect[OF r, of "?S ! 0" 30 "ascii '' ok ''"] ip
  obtain i where "i < length ?S"
    "markDone 30 (ascii '' ok '') ?S
       = ?S[i := (?S ! 0)\<lparr>status := Done, doneAt := Some 30, result := Some (trim (ascii '' ok ''))\<rparr>]"
    by blast
  then have first: "map status (markDone 30 (ascii '' ok '') ?S) = [Done]
      \<and> map doneAt (markDone 30 (ascii '' ok '') ?S) = [Some 30]
      \<and> map result (markDone 30 (ascii '' ok '') ?S) = [Some (trim (ascii '' ok ''))]"
    unfolding v by simp
  have rd: "reachable ?D"
    by (intro reachable_step reachable_init) simp_all
  have vd: "?D = [\<lparr>ticket_id = ascii ''u1'', number = nextNumber [], name = trim (ascii ''a''),
           desc = trim (ascii ''b''), priority = Low, etaMinutes = 15,
           status = Done, createdAt = 10, startedAt = Some 20, doneAt = Some 30,
           result = Some (trim (ascii '' ok ''))\<rparr>]"
    unfolding step.simps(3) unfolding v by (simp add: markDone_def inProgress_def)
  have st: "status (?D ! 0) = Done" unfolding vd by simp
  have len: "0 < length ?D" unfolding vd by simp
  have fh: "fresh_history ?ops ?D" by simp
  have nr: "\<not> list_ex isReset ?ops" by simp
  from markDone_effect[OF rd, of _ _ _ 0 ?ops] len st fh nr
  have "doneAt (run ?ops ?D ! 0) = doneAt (?D ! 0) \<and> result (run ?ops ?D ! 0) = result (?D ! 0)"
    by blast
  then have second: "doneAt (run ?ops ?D ! 0) = Some 30
      \<and> result (run ?ops ?D ! 0) = Some (trim (ascii '' ok ''))"
    unfolding vd by simp
  show ?thesis using r ip first rd st fh nr second by blast
qed

section \<open>Create\<close>

lemma trim_empty_iff: "trim s = [] \<longleftrightarrow> (\<forall>c\<in>set s. isWhiteSpace c)"
proof
  assume "trim s = []"
  then have "\<forall>c\<in>set (dropWhile isWhiteSpace s). isWhiteSpace c"
    by (simp add: trim_def dropWhile_eq_Nil_conv)
  then have "dropWhile isWhiteSpace s = []"
    using hd_dropWhile[of isWhiteSpace s] hd_in_set[of "dropWhile isWhiteSpace s"] by blast
  then show "\<forall>c\<in>set s. isWhiteSpace c" by (simp add: dropWhile_eq_Nil_conv)
next
  assume "\<forall>c\<in>set s. isWhiteSpace c"
  then have "dropWhile isWhiteSpace s = []" using dropWhile_eq_Nil_conv[of isWhiteSpace s] by blast
  then show "trim s = []" by (simp add: trim_def del: dropWhile_eq_Nil_conv)
qed

lemma trim_decomp:
  "\<exists>pre post. s = pre @ trim s @ post
      \<and> (\<forall>c\<in>set pre. isWhiteSpace c) \<and> (\<forall>c\<in>set post. isWhiteSpace c)"
proof -
  let ?xs = "dropWhile isWhiteSpace s"
  let ?pre = "takeWhile isWhiteSpace s"
  let ?post = "rev (takeWhile isWhiteSpace (rev ?xs))"
  have "?xs = rev (rev ?xs)" by simp
  also have "\<dots> = rev (takeWhile isWhiteSpace (rev ?xs) @ dropWhile isWhiteSpace (rev ?xs))"
    by (simp only: takeWhile_dropWhile_id)
  also have "\<dots> = rev (dropWhile isWhiteSpace (rev ?xs)) @ ?post"
    by (rule rev_append)
  finally have "?xs = trim s @ ?post" by (simp only: trim_def)
  moreover have "s = ?pre @ ?xs" by simp
  ultimately have "s = ?pre @ trim s @ ?post" by simp
  moreover have "\<forall>c\<in>set ?pre. isWhiteSpace c" by (auto dest: set_takeWhileD)
  moreover have "\<forall>c\<in>set ?post. isWhiteSpace c" by (auto dest: set_takeWhileD)
  ultimately show ?thesis by blast
qed

lemma trim_ends:
  assumes "trim s \<noteq> []"
  shows "\<not> isWhiteSpace (hd (trim s)) \<and> \<not> isWhiteSpace (last (trim s))"
proof -
  let ?xs = "dropWhile isWhiteSpace s"
  let ?ys = "dropWhile isWhiteSpace (rev ?xs)"
  have ys: "?ys \<noteq> []" using assms by (simp add: trim_def)
  have xs: "?xs \<noteq> []"
  proof
    assume "?xs = []"
    then have "?ys = []" by (simp del: dropWhile_eq_Nil_conv)
    with ys show False by simp
  qed
  have "last (trim s) = hd ?ys" using ys by (simp add: trim_def last_rev)
  then have l: "\<not> isWhiteSpace (last (trim s))" using hd_dropWhile[OF ys] by simp
  obtain zs where zs: "rev ?xs = zs @ ?ys" by (metis takeWhile_dropWhile_id)
  have "hd (trim s) = last ?ys" using ys by (simp add: trim_def hd_rev)
  also have "\<dots> = last (rev ?xs)" using ys by (subst (2) zs) simp
  also have "\<dots> = hd ?xs" using xs by (simp add: last_rev)
  finally have "\<not> isWhiteSpace (hd (trim s))" using hd_dropWhile[OF xs] by simp
  with l show ?thesis by simp
qed

lemma step_eta_positive:
  assumes "\<forall>t\<in>set s. 1 \<le> etaMinutes t"
  shows "\<forall>t\<in>set (step op s). 1 \<le> etaMinutes t"
proof (cases op)
  case (Create u now a d p e)
  then show ?thesis using assms by (cases e) (auto simp: createTicket_def Let_def)
next
  case (CallNext now)
  then show ?thesis using assms by (auto simp: callNext_def split: option.splits list.splits)
next
  case (Complete now d)
  then show ?thesis using assms by (auto simp: markDone_def Let_def split: option.splits)
next
  case Skip
  then show ?thesis using assms by (auto simp: markSkipped_def split: option.splits)
next
  case (Bump k)
  then show ?thesis using assms by (auto simp: bumpPriority_def)
next
  case (Reset ok)
  then show ?thesis using assms by (simp add: resetAll_def)
qed

lemma reachable_eta_positive: "reachable s \<Longrightarrow> \<forall>t\<in>set s. 1 \<le> etaMinutes t"
  by (induction rule: reachable.induct) (simp_all add: step_eta_positive)

text \<open>
  Claim C10. Create works on the trimmed name and description: \<open>trim\<close> removes exactly
  a prefix and a suffix of white space, so an input of white space only is empty after
  trimming and the store is unchanged; otherwise the appended ticket carries the trimmed
  name and description, and its \<open>etaMinutes\<close> is 15 for an input that is not finite
  and the floor of the input, at least 1, otherwise. Every ticket of a reachable store
  has \<open>etaMinutes\<close> an integer not below 1.
\<close>

theorem createTicket_normalizes_input:
  "(trim a = [] \<longleftrightarrow> (\<forall>c\<in>set a. isWhiteSpace c))
   \<and> (\<exists>pre post. a = pre @ trim a @ post
         \<and> (\<forall>c\<in>set pre. isWhiteSpace c) \<and> (\<forall>c\<in>set post. isWhiteSpace c))
   \<and> (trim a \<noteq> [] \<longrightarrow> \<not> isWhiteSpace (hd (trim a)) \<and> \<not> isWhiteSpace (last (trim a)))
   \<and> ((\<forall>c\<in>set a. isWhiteSpace c) \<or> (\<forall>c\<in>set d. isWhiteSpace c) \<longrightarrow>
         createTicket u now a d p e s = s)
   \<and> (\<not> (\<forall>c\<in>set a. isWhiteSpace c) \<and> \<not> (\<forall>c\<in>set d. isWhiteSpace c) \<longrightarrow>
         (\<exists>t. createTicket u now a d p e s = s @ [t] \<and> name t = trim a \<and> desc t = trim d
            \<and> etaMinutes t = (case e of Finite q \<Rightarrow> max 1 \<lfloor>q\<rfloor> | NaN \<Rightarrow> 15
                                | PosInfinity \<Rightarrow> 15 | NegInfinity \<Rightarrow> 15)
            \<and> 1 \<le> etaMinutes t))
   \<and> (reachable s \<longrightarrow> (\<forall>t\<in>set s. 1 \<le> etaMinutes t))"
proof (intro conjI impI)
  show "trim a = [] \<longleftrightarrow> (\<forall>c\<in>set a. isWhiteSpace c)" by (rule trim_empty_iff)
  show "\<exists>pre post. a = pre @ trim a @ post
         \<and> (\<forall>c\<in>set pre. isWhiteSpace c) \<and> (\<forall>c\<in>set post. isWhiteSpace c)"
    by (rule trim_decomp)
  show "\<not> isWhiteSpace (hd (trim a))" if "trim a \<noteq> []" using trim_ends[OF that] by simp
  show "\<not> isWhiteSpace (last (trim a))" if "trim a \<noteq> []" using trim_ends[OF that] by simp
  show "createTicket u now a d p e s = s"
    if "(\<forall>c\<in>set a. isWhiteSpace c) \<or> (\<forall>c\<in>set d. isWhiteSpace c)"
    using that trim_empty_iff[of a] trim_empty_iff[of d] createTicket_rejected[of a d u now p e s]
    by blast
  show "\<exists>t. createTicket u now a d p e s = s @ [t] \<and> name t = trim a \<and> desc t = trim d
            \<and> etaMinutes t = (case e of Finite q \<Rightarrow> max 1 \<lfloor>q\<rfloor> | NaN \<Rightarrow> 15
                                | PosInfinity \<Rightarrow> 15 | NegInfinity \<Rightarrow> 15)
            \<and> 1 \<le> etaMinutes t"
    if "\<not> (\<forall>c\<in>set a. isWhiteSpace c) \<and> \<not> (\<forall>c\<in>set d. isWhiteSpace c)"
  proof -
    have ne: "trim a \<noteq> []" "trim d \<noteq> []"
      using that trim_empty_iff[of a] trim_empty_iff[of d] by blast+
    show ?thesis
      unfolding createTicket_accepted[OF ne] by (cases e) simp_all
  qed
  show "\<forall>t\<in>set s. 1 \<le> etaMinutes t" if "reachable s"
    using that by (rule reachable_eta_positive)
qed

theorem createTicket_normalizes_input_witness:
  "reachable []
   \<and> \<not> (\<forall>c\<in>set (ascii '' x ''). isWhiteSpace c) \<and> \<not> (\<forall>c\<in>set (ascii ''y''). isWhiteSpace c)
   \<and> trim (ascii ''  '') = []
   \<and> trim (ascii '' x '') = ascii ''x''
   \<and> map name (createTicket (ascii ''u'') 7 (ascii '' x '') (ascii ''y'') High (Finite (5 / 2)) [])
       = [ascii ''x'']
   \<and> map etaMinutes (createTicket (ascii ''u'') 7 (ascii '' x '') (ascii ''y'') High (Finite (5 / 2)) [])
       = [2]
   \<and> map etaMinutes (createTicket (ascii ''u'') 7 (ascii '' x '') (ascii ''y'') High NaN []) = [15]
   \<and> map etaMinutes (createTicket (ascii ''u'') 7 (ascii '' x '') (ascii ''y'') High (Finite (- 3)) [])
       = [1]
   \<and> createTicket (ascii ''u'') 7 (ascii ''  '') (ascii ''y'') High (Finite 5) [] = []"
proof -
  have ws: "\<not> (\<forall>c\<in>set (ascii '' x ''). isWhiteSpace c)" "\<not> (\<forall>c\<in>set (ascii ''y''). isWhiteSpace c)"
    "trim (ascii ''  '') = []"
    by (simp_all add: ascii_def isWhiteSpace_def trim_def)
  have t: "trim (ascii '' x '') = ascii ''x''"
    by (simp add: trim_def isWhiteSpace_def ascii_def)
  have f: "\<lfloor>5 / 2 :: rat\<rfloor> = 2" by (simp add: floor_eq_iff)
  have r: "reachable []" by (rule reachable_init)
  from createTicket_normalizes_input[of "ascii '' x ''" "ascii ''y''" "ascii ''u''" 7 High "Finite (5 / 2)" "[]"]
    createTicket_normalizes_input[of "ascii '' x ''" "ascii ''y''" "ascii ''u''" 7 High NaN "[]"]
    createTicket_normalizes_input[of "ascii '' x ''" "ascii ''y''" "ascii ''u''" 7 High "Finite (- 3)" "[]"]
    createTicket_normalizes_input[of "ascii ''  ''" "ascii ''y''" "ascii ''u''" 7 High "Finite 5" "[]"]
    ws t r
  show ?thesis by (auto simp: f)
qed

section \<open>Frame of the operations\<close>

text \<open>
  Claim C9. In a store with pairwise distinct identifiers, each of call-next, complete,
  skip and bump-priority replaces the record at one index at most and keeps every other
  record and the order of the array: call-next replaces the head of the waiting queue
  (when no ticket is in progress), complete and skip replace the ticket in progress,
  bump-priority the ticket with the given identifier, each by the record the handler
  builds, and otherwise the store is unchanged. Create with non-empty trimmed name and
  description returns the store with exactly one new waiting ticket appended at the end,
  all existing records unchanged; with an empty trimmed name or description it returns
  the store unchanged.
\<close>

theorem operations_frame:
  assumes "distinct (map ticket_id s)"
  shows "(\<exists>i t. callNext now s = s[i := t] \<and>
            (callNext now s \<noteq> s \<longrightarrow> i < length s \<and> waitingQueue s \<noteq> [] \<and> s ! i = hd (waitingQueue s)))
       \<and> (\<exists>i t. markDone now d s = s[i := t] \<and>
            (markDone now d s \<noteq> s \<longrightarrow> i < length s \<and> inProgress s = Some (s ! i)))
       \<and> (\<exists>i t. markSkipped s = s[i := t] \<and>
            (markSkipped s \<noteq> s \<longrightarrow> i < length s \<and> inProgress s = Some (s ! i)))
       \<and> (\<exists>i t. bumpPriority k s = s[i := t] \<and>
            (bumpPriority k s \<noteq> s \<longrightarrow> i < length s \<and> ticket_id (s ! i) = k))
       \<and> map ticket_id (callNext now s) = map ticket_id s
       \<and> map ticket_id (markDone now d s) = map ticket_id s
       \<and> map ticket_id (markSkipped s) = map ticket_id s
       \<and> map ticket_id (bumpPriority k s) = map ticket_id s
       \<and> (inProgress s = None \<and> waitingQueue s = h # rest \<longrightarrow>
            (\<exists>i<length s. s ! i = h \<and>
               callNext now s = s[i := h\<lparr>status := In_progress, startedAt := Some now\<rparr>]))
       \<and> (inProgress s \<noteq> None \<or> waitingQueue s = [] \<longrightarrow> callNext now s = s)
       \<and> (inProgress s = Some ip \<longrightarrow>
            (\<exists>i<length s. s ! i = ip \<and>
               markDone now d s
                 = s[i := ip\<lparr>status := Done, doneAt := Some now, result := Some (trim d)\<rparr>]))
       \<and> (inProgress s = None \<longrightarrow> markDone now d s = s)
       \<and> (inProgress s = Some ip \<longrightarrow>
            (\<exists>i<length s. s ! i = ip \<and> markSkipped s = s[i := ip\<lparr>status := Skipped\<rparr>]))
       \<and> (inProgress s = None \<longrightarrow> markSkipped s = s)
       \<and> (j < length s \<and> ticket_id (s ! j) = k \<longrightarrow>
            bumpPriority k s
              = s[j := (s ! j)\<lparr>priority := (if priority (s ! j) = Low then Medium
                                          else if priority (s ! j) = Medium then High
                                          else High)\<rparr>])
       \<and> (k \<notin> set (map ticket_id s) \<longrightarrow> bumpPriority k s = s)
       \<and> (trim a \<noteq> [] \<and> trim de \<noteq> [] \<longrightarrow>
            createTicket u now a de p e s
              = s @ [\<lparr>ticket_id = u, number = nextNumber s, name = trim a, desc = trim de,
                      priority = p,
                      etaMinutes = (case e of Finite q \<Rightarrow> max 1 \<lfloor>q\<rfloor> | _ \<Rightarrow> 15),
                      status = Waiting, createdAt = now,
                      startedAt = None, doneAt = None, result = None\<rparr>])
       \<and> (trim a = [] \<or> trim de = [] \<longrightarrow> createTicket u now a de p e s = s)"
proof (intro conjI impI)
  show "\<exists>i t. callNext now s = s[i := t] \<and>
            (callNext now s \<noteq> s \<longrightarrow> i < length s \<and> waitingQueue s \<noteq> [] \<and> s ! i = hd (waitingQueue s))"
  proof (cases "inProgress s = None \<and> waitingQueue s \<noteq> []")
    case True
    then obtain h rest where hr: "waitingQueue s = h # rest" by (cases "waitingQueue s") auto
    have ipn: "inProgress s = None" using True by simp
    from callNext_upd[OF assms ipn hr, of now] hr show ?thesis by auto
  next
    case False
    then have "callNext now s = s" using callNext_noop[of s now] by auto
    then show ?thesis by (intro exI[of _ 0] exI[of _ "s ! 0"]) simp
  qed
  show "\<exists>i t. markDone now d s = s[i := t] \<and>
            (markDone now d s \<noteq> s \<longrightarrow> i < length s \<and> inProgress s = Some (s ! i))"
  proof (cases "inProgress s")
    case None
    then have "markDone now d s = s" by (simp add: markDone_def)
    then show ?thesis by (intro exI[of _ 0] exI[of _ "s ! 0"]) simp
  next
    case (Some ip)
    from markDone_upd[OF assms Some, of now d] Some show ?thesis by auto
  qed
  show "\<exists>i t. markSkipped s = s[i := t] \<and>
            (markSkipped s \<noteq> s \<longrightarrow> i < length s \<and> inProgress s = Some (s ! i))"
  proof (cases "inProgress s")
    case None
    then have "markSkipped s = s" by (simp add: markSkipped_def)
    then show ?thesis by (intro exI[of _ 0] exI[of _ "s ! 0"]) simp
  next
    case (Some ip)
    from markSkipped_upd[OF assms Some] Some show ?thesis by auto
  qed
  show "\<exists>i t. bumpPriority k s = s[i := t] \<and>
            (bumpPriority k s \<noteq> s \<longrightarrow> i < length s \<and> ticket_id (s ! i) = k)"
  proof (cases "k \<in> set (map ticket_id s)")
    case True
    then obtain i where i: "i < length s" "ticket_id (s ! i) = k"
      by (auto simp: in_set_conv_nth)
    from bumpPriority_upd[OF assms i] i show ?thesis by blast
  next
    case False
    then have "bumpPriority k s = s" by (rule bumpPriority_absent)
    then show ?thesis by (intro exI[of _ 0] exI[of _ "s ! 0"]) simp
  qed
  show "map ticket_id (callNext now s) = map ticket_id s" by (rule callNext_ids)
  show "map ticket_id (markDone now d s) = map ticket_id s" by (rule markDone_ids)
  show "map ticket_id (markSkipped s) = map ticket_id s" by (rule markSkipped_ids)
  show "map ticket_id (bumpPriority k s) = map ticket_id s" by (rule bumpPriority_ids)
  show "\<exists>i<length s. s ! i = h \<and>
               callNext now s = s[i := h\<lparr>status := In_progress, startedAt := Some now\<rparr>]"
    if "inProgress s = None \<and> waitingQueue s = h # rest"
    using that callNext_upd[OF assms, of h rest now] by blast
  show "callNext now s = s" if "inProgress s \<noteq> None \<or> waitingQueue s = []"
    using that by (rule callNext_noop)
  show "\<exists>i<length s. s ! i = ip \<and>
               markDone now d s
                 = s[i := ip\<lparr>status := Done, doneAt := Some now, result := Some (trim d)\<rparr>]"
    if "inProgress s = Some ip"
    using markDone_upd[OF assms that] .
  show "markDone now d s = s" if "inProgress s = None"
    using that by (simp add: markDone_def)
  show "\<exists>i<length s. s ! i = ip \<and> markSkipped s = s[i := ip\<lparr>status := Skipped\<rparr>]"
    if "inProgress s = Some ip"
    using markSkipped_upd[OF assms that] .
  show "markSkipped s = s" if "inProgress s = None"
    using that by (simp add: markSkipped_def)
  show "bumpPriority k s
              = s[j := (s ! j)\<lparr>priority := (if priority (s ! j) = Low then Medium
                                          else if priority (s ! j) = Medium then High
                                          else High)\<rparr>]"
    if "j < length s \<and> ticket_id (s ! j) = k"
    using that bumpPriority_upd[OF assms, of j k] by blast
  show "bumpPriority k s = s" if "k \<notin> set (map ticket_id s)"
    using that by (rule bumpPriority_absent)
  show "createTicket u now a de p e s
              = s @ [\<lparr>ticket_id = u, number = nextNumber s, name = trim a, desc = trim de,
                      priority = p,
                      etaMinutes = (case e of Finite q \<Rightarrow> max 1 \<lfloor>q\<rfloor> | _ \<Rightarrow> 15),
                      status = Waiting, createdAt = now,
                      startedAt = None, doneAt = None, result = None\<rparr>]"
    if "trim a \<noteq> [] \<and> trim de \<noteq> []"
    using that by (simp add: createTicket_accepted)
  show "createTicket u now a de p e s = s" if "trim a = [] \<or> trim de = []"
    using that by (rule createTicket_rejected)
qed

theorem operations_frame_witness:
  "distinct (map ticket_id
     [(mkTicket ''A'' Medium 1)\<lparr>status := In_progress, startedAt := Some 5\<rparr>, mkTicket ''B'' Low 2])
   \<and> inProgress [(mkTicket ''A'' Medium 1)\<lparr>status := In_progress, startedAt := Some 5\<rparr>, mkTicket ''B'' Low 2]
       = Some ((mkTicket ''A'' Medium 1)\<lparr>status := In_progress, startedAt := Some 5\<rparr>)
   \<and> markDone 9 (ascii '' ok '')
        [(mkTicket ''A'' Medium 1)\<lparr>status := In_progress, startedAt := Some 5\<rparr>, mkTicket ''B'' Low 2]
       = [(mkTicket ''A'' Medium 1)\<lparr>status := Done, startedAt := Some 5, doneAt := Some 9,
             result := Some (ascii ''ok'')\<rparr>, mkTicket ''B'' Low 2]
   \<and> markSkipped
        [(mkTicket ''A'' Medium 1)\<lparr>status := In_progress, startedAt := Some 5\<rparr>, mkTicket ''B'' Low 2]
       = [(mkTicket ''A'' Medium 1)\<lparr>status := Skipped, startedAt := Some 5\<rparr>, mkTicket ''B'' Low 2]
   \<and> bumpPriority (ascii ''B'')
        [(mkTicket ''A'' Medium 1)\<lparr>status := In_progress, startedAt := Some 5\<rparr>, mkTicket ''B'' Low 2]
       = [(mkTicket ''A'' Medium 1)\<lparr>status := In_progress, startedAt := Some 5\<rparr>, mkTicket ''B'' Medium 2]
   \<and> callNext 9
        [(mkTicket ''A'' Medium 1)\<lparr>status := In_progress, startedAt := Some 5\<rparr>, mkTicket ''B'' Low 2]
       = [(mkTicket ''A'' Medium 1)\<lparr>status := In_progress, startedAt := Some 5\<rparr>, mkTicket ''B'' Low 2]
   \<and> trim (ascii '' x '') \<noteq> [] \<and> trim (ascii ''y'') \<noteq> [] \<and> trim (ascii ''  '') = []
   \<and> createTicket (ascii ''C'') 7 (ascii '' x '') (ascii ''y'') High (Finite 3)
        [(mkTicket ''A'' Medium 1)\<lparr>status := In_progress, startedAt := Some 5\<rparr>, mkTicket ''B'' Low 2]
       = [(mkTicket ''A'' Medium 1)\<lparr>status := In_progress, startedAt := Some 5\<rparr>, mkTicket ''B'' Low 2,
          \<lparr>ticket_id = ascii ''C'', number = ascii ''001'', name = ascii ''x'', desc = ascii ''y'',
            priority = High, etaMinutes = 3, status = Waiting, createdAt = 7,
            startedAt = None, doneAt = None, result = None\<rparr>]
   \<and> createTicket (ascii ''C'') 7 (ascii ''  '') (ascii ''y'') High (Finite 3)
        [(mkTicket ''A'' Medium 1)\<lparr>status := In_progress, startedAt := Some 5\<rparr>, mkTicket ''B'' Low 2]
       = [(mkTicket ''A'' Medium 1)\<lparr>status := In_progress, startedAt := Some 5\<rparr>, mkTicket ''B'' Low 2]
   \<and> distinct (map ticket_id [mkTicket ''A'' Medium 1, mkTicket ''B'' High 2])
   \<and> inProgress [mkTicket ''A'' Medium 1, mkTicket ''B'' High 2] = None
   \<and> waitingQueue [mkTicket ''A'' Medium 1, mkTicket ''B'' High 2]
       = [mkTicket ''B'' High 2, mkTicket ''A'' Medium 1]
   \<and> callNext 9 [mkTicket ''A'' Medium 1, mkTicket ''B'' High 2]
       = [mkTicket ''A'' Medium 1, (mkTicket ''B'' High 2)\<lparr>status := In_progress, startedAt := Some 9\<rparr>]"
proof -
  let ?A = "(mkTicket ''A'' Medium 1)\<lparr>status := In_progress, startedAt := Some 5\<rparr>"
  let ?B = "mkTicket ''B'' Low 2"
  let ?S = "[?A, ?B]"
  let ?T = "[mkTicket ''A'' Medium 1, mkTicket ''B'' High 2]"
  have ab: "ascii ''A'' \<noteq> ascii ''B''" by (simp add: ascii_def)
  have AB: "?B \<noteq> ?A" by (simp add: mkTicket_def)
  have dS: "distinct (map ticket_id ?S)" using ab by (simp add: mkTicket_def)
  have dT: "distinct (map ticket_id ?T)" using ab by (simp add: mkTicket_def)
  have ipS: "inProgress ?S = Some ?A" by (simp add: inProgress_def mkTicket_def)
  have ipT: "inProgress ?T = None" by (simp add: inProgress_def mkTicket_def)
  have wqT: "waitingQueue ?T = [mkTicket ''B'' High 2, mkTicket ''A'' Medium 1]"
    by (simp add: waitingQueue_def sortWaitingQueue_def compareWaiting_def mkTicket_def)
  have tr: "trim (ascii '' x '') = ascii ''x''" "trim (ascii ''y'') = ascii ''y''"
    "trim (ascii ''  '') = []" "trim (ascii '' ok '') = ascii ''ok''"
    by (simp_all add: trim_def isWhiteSpace_def ascii_def)
  have ne: "trim (ascii '' x '') \<noteq> []" "trim (ascii ''y'') \<noteq> []"
    unfolding tr by (simp_all add: ascii_def)
  have nn: "nextNumber ?S = ascii ''001''"
    by (simp add: nextNumber_def maxNumber_def mkTicket_def parseInt10_def isWhiteSpace_def
        isDigit_def ascii_def pad3_1[unfolded ascii_def])
  note fS = operations_frame[OF dS, where now = 9 and d = "ascii '' ok ''" and k = "ascii ''B''"
      and h = ?B and rest = "[]" and ip = ?A and j = 1 and a = "ascii '' x ''"
      and de = "ascii ''y''" and u = "ascii ''C''" and p = High and e = "Finite 3"]
  note fS' = operations_frame[OF dS, where now = 7 and d = "[]" and k = "ascii ''B''"
      and h = ?B and rest = "[]" and ip = ?A and j = 1 and a = "ascii ''  ''"
      and de = "ascii ''y''" and u = "ascii ''C''" and p = High and e = "Finite 3"]
  note fS7 = operations_frame[OF dS, where now = 7 and d = "[]" and k = "ascii ''B''"
      and h = ?B and rest = "[]" and ip = ?A and j = 1 and a = "ascii '' x ''"
      and de = "ascii ''y''" and u = "ascii ''C''" and p = High and e = "Finite 3"]
  note fT = operations_frame[OF dT, where now = 9 and d = "[]" and k = "ascii ''B''"
      and h = "mkTicket ''B'' High 2" and rest = "[mkTicket ''A'' Medium 1]"
      and ip = ?A and j = 1 and a = "[]" and de = "[]" and u = "[]" and p = High and e = NaN]
  from fS have "inProgress ?S = Some ?A \<longrightarrow>
      (\<exists>i<length ?S. ?S ! i = ?A \<and> markDone 9 (ascii '' ok '') ?S
         = ?S[i := ?A\<lparr>status := Done, doneAt := Some 9, result := Some (trim (ascii '' ok ''))\<rparr>])"
    by (elim conjE)
  with ipS obtain i where i: "i < length ?S" "?S ! i = ?A"
    "markDone 9 (ascii '' ok '') ?S
       = ?S[i := ?A\<lparr>status := Done, doneAt := Some 9, result := Some (trim (ascii '' ok ''))\<rparr>]"
    by auto
  have i0: "i = 0" using i(1,2) AB by (cases i) simp_all
  have md: "markDone 9 (ascii '' ok '') ?S
       = [(mkTicket ''A'' Medium 1)\<lparr>status := Done, startedAt := Some 5, doneAt := Some 9,
             result := Some (ascii ''ok'')\<rparr>, ?B]"
    using i(3) unfolding i0 tr by (simp add: mkTicket_def)
  from fS have "inProgress ?S = Some ?A \<longrightarrow>
      (\<exists>i<length ?S. ?S ! i = ?A \<and> markSkipped ?S = ?S[i := ?A\<lparr>status := Skipped\<rparr>])"
    by (elim conjE)
  with ipS obtain i' where i': "i' < length ?S" "?S ! i' = ?A"
    "markSkipped ?S = ?S[i' := ?A\<lparr>status := Skipped\<rparr>]"
    by auto
  have i'0: "i' = 0" using i'(1,2) AB by (cases i') simp_all
  have ms: "markSkipped ?S = [(mkTicket ''A'' Medium 1)\<lparr>status := Skipped, startedAt := Some 5\<rparr>, ?B]"
    using i'(3) unfolding i'0 by (simp add: mkTicket_def)
  have j1: "(1::nat) < length ?S \<and> ticket_id (?S ! 1) = ascii ''B''" by (simp add: mkTicket_def)
  from fS have "1 < length ?S \<and> ticket_id (?S ! 1) = ascii ''B'' \<longrightarrow>
      bumpPriority (ascii ''B'') ?S
      = ?S[1 := (?S ! 1)\<lparr>priority := (if priority (?S ! 1) = Low then Medium
                                          else if priority (?S ! 1) = Medium then High
                                          else High)\<rparr>]"
    by (elim conjE)
  with j1 have "bumpPriority (ascii ''B'') ?S
      = ?S[1 := (?S ! 1)\<lparr>priority := (if priority (?S ! 1) = Low then Medium
                                          else if priority (?S ! 1) = Medium then High
                                          else High)\<rparr>]"
    by (rule rev_mp)
  then have bp: "bumpPriority (ascii ''B'') ?S = [?A, mkTicket ''B'' Medium 2]"
    by (simp add: mkTicket_def)
  from fS have "inProgress ?S \<noteq> None \<or> waitingQueue ?S = [] \<longrightarrow> callNext 9 ?S = ?S"
    by (elim conjE)
  with ipS have cn: "callNext 9 ?S = ?S" by simp
  from fS7 have "trim (ascii '' x '') \<noteq> [] \<and> trim (ascii ''y'') \<noteq> [] \<longrightarrow>
      createTicket (ascii ''C'') 7 (ascii '' x '') (ascii ''y'') High (Finite 3) ?S
      = ?S @ [\<lparr>ticket_id = ascii ''C'', number = nextNumber ?S, name = trim (ascii '' x ''),
                desc = trim (ascii ''y''), priority = High,
                etaMinutes = (case Finite 3 of Finite q \<Rightarrow> max 1 \<lfloor>q\<rfloor> | _ \<Rightarrow> 15),
                status = Waiting, createdAt = 7,
                startedAt = None, doneAt = None, result = None\<rparr>]"
    by (elim conjE)
  with ne have "createTicket (ascii ''C'') 7 (ascii '' x '') (ascii ''y'') High (Finite 3) ?S
      = ?S @ [\<lparr>ticket_id = ascii ''C'', number = nextNumber ?S, name = trim (ascii '' x ''),
                desc = trim (ascii ''y''), priority = High,
                etaMinutes = (case Finite 3 of Finite q \<Rightarrow> max 1 \<lfloor>q\<rfloor> | _ \<Rightarrow> 15),
                status = Waiting, createdAt = 7,
                startedAt = None, doneAt = None, result = None\<rparr>]"
    by simp
  then have cr: "createTicket (ascii ''C'') 7 (ascii '' x '') (ascii ''y'') High (Finite 3) ?S
      = [?A, ?B,
          \<lparr>ticket_id = ascii ''C'', number = ascii ''001'', name = ascii ''x'', desc = ascii ''y'',
            priority = High, etaMinutes = 3, status = Waiting, createdAt = 7,
            startedAt = None, doneAt = None, result = None\<rparr>]"
    unfolding nn tr by simp
  from fS' have "trim (ascii ''  '') = [] \<or> trim (ascii ''y'') = [] \<longrightarrow>
      createTicket (ascii ''C'') 7 (ascii ''  '') (ascii ''y'') High (Finite 3) ?S = ?S"
    by (elim conjE)
  with tr(3) have cb: "createTicket (ascii ''C'') 7 (ascii ''  '') (ascii ''y'') High (Finite 3) ?S = ?S"
    by simp
  from fT have "inProgress ?T = None \<and> waitingQueue ?T = [mkTicket ''B'' High 2, mkTicket ''A'' Medium 1] \<longrightarrow>
      (\<exists>i<length ?T. ?T ! i = mkTicket ''B'' High 2 \<and>
         callNext 9 ?T = ?T[i := (mkTicket ''B'' High 2)\<lparr>status := In_progress, startedAt := Some 9\<rparr>])"
    by (elim conjE)
  with ipT wqT obtain m where m: "m < length ?T" "?T ! m = mkTicket ''B'' High 2"
    "callNext 9 ?T = ?T[m := (mkTicket ''B'' High 2)\<lparr>status := In_progress, startedAt := Some 9\<rparr>]"
    by auto
  have "mkTicket ''A'' Medium 1 \<noteq> mkTicket ''B'' High 2" by (simp add: mkTicket_def)
  then have m1: "m = 1" using m(1,2) by (cases m) simp_all
  have ct: "callNext 9 ?T
      = [mkTicket ''A'' Medium 1, (mkTicket ''B'' High 2)\<lparr>status := In_progress, startedAt := Some 9\<rparr>]"
    using m(3) unfolding m1 by simp
  show ?thesis using ne by (simp only: dS ipS md ms bp cn tr(3) cr cb dT ipT wqT ct simp_thms)
qed

section \<open>Statistics of the day\<close>

text \<open>
  Rounding a quotient of integers to the nearest integer, ties upwards, is an integer
  division; so are the whole minutes between two instants.
\<close>

lemma trim_abc: "trim (ascii ''a'') \<noteq> []" "trim (ascii ''b'') \<noteq> []" "trim (ascii ''c'') \<noteq> []"
  by (simp_all add: trim_def isWhiteSpace_def ascii_def)

lemma ids_neq: "ascii ''u1'' \<noteq> ascii ''u2''" "ascii ''u1'' \<noteq> ascii ''u3''" "ascii ''u2'' \<noteq> ascii ''u3''"
  "ascii ''u2'' \<noteq> ascii ''u1''" "ascii ''u3'' \<noteq> ascii ''u1''" "ascii ''u3'' \<noteq> ascii ''u2''"
  by (simp_all add: ascii_def)

lemma round_quotient:
  assumes "0 < n"
  shows "round (rat_of_int S / rat_of_int n) = (2 * S + n) div (2 * n)"
proof -
  have "rat_of_int S / rat_of_int n + 1 / 2 = rat_of_int (2 * S + n) / rat_of_int (2 * n)"
    using assms by (simp add: field_simps)
  then have "round (rat_of_int S / rat_of_int n) = \<lfloor>rat_of_int (2 * S + n) / rat_of_int (2 * n)\<rfloor>"
    by (simp only: round_def)
  also have "\<dots> = (2 * S + n) div (2 * n)" by (rule floor_divide_of_int_eq)
  finally show ?thesis .
qed

lemma minutesBetween_int: "minutesBetween a b = max 0 ((b - a + 30000) div 60000)"
proof -
  have "round (rat_of_int (b - a) / rat_of_int 60000) = (2 * (b - a) + 60000) div (2 * 60000)"
    by (rule round_quotient) simp
  also have "\<dots> = (b - a + 30000) div 60000" by simp
  finally show ?thesis by (simp add: minutesBetween_def)
qed

lemma foldl_add_sum: "foldl (\<lambda>acc x. acc + f x) (a::int) xs = a + sum_list (map f xs)"
  by (induction xs arbitrary: a) simp_all

lemma isSameLocalDay_iff: "isSameLocalDay ld a b \<longleftrightarrow> ld a = ld b"
  by (cases "ld a"; cases "ld b") (simp add: isSameLocalDay_def)

lemma average_int:
  "(if length rows = 0 then 0
    else round (rat_of_int (foldl (\<lambda>acc x. acc + f x) 0 rows) / rat_of_nat (length rows)))
   = (if rows = [] then 0
      else (2 * sum_list (map f rows) + int (length rows)) div (2 * int (length rows)))"
proof (cases "rows = []")
  case True
  then show ?thesis by simp
next
  case False
  then have n: "0 < int (length rows)" by simp
  have "round (rat_of_int (sum_list (map f rows)) / rat_of_int (int (length rows)))
        = (2 * sum_list (map f rows) + int (length rows)) div (2 * int (length rows))"
    using n by (rule round_quotient)
  then show ?thesis using False by (simp add: foldl_add_sum)
qed

text \<open>
  Claim C8, as stated, fails for the averages: the code does not round the average of
  the minutes, it rounds each ticket's minutes first and then rounds the average of
  these whole minutes. Three tickets that waited 30 s, 30 s and 24 s have an average
  wait of 0.47 minutes, which rounds to 0; the code counts 1, 1 and 0 minutes and
  shows 1.
\<close>

theorem average_rounds_each_ticket_first:
  "avgTodayWaitMinutes utcJanuary1970 30000
     (run [Create (ascii ''u1'') 0 (ascii ''a'') (ascii ''a'') Medium (Finite 15),
           Create (ascii ''u2'') 0 (ascii ''b'') (ascii ''b'') Medium (Finite 15),
           Create (ascii ''u3'') 6000 (ascii ''c'') (ascii ''c'') Medium (Finite 15),
           CallNext 30000, Skip, CallNext 30000, Skip, CallNext 30000] []) = 1
   \<and> avgWait_spec utcJanuary1970 30000
     (run [Create (ascii ''u1'') 0 (ascii ''a'') (ascii ''a'') Medium (Finite 15),
           Create (ascii ''u2'') 0 (ascii ''b'') (ascii ''b'') Medium (Finite 15),
           Create (ascii ''u3'') 6000 (ascii ''c'') (ascii ''c'') Medium (Finite 15),
           CallNext 30000, Skip, CallNext 30000, Skip, CallNext 30000] []) = 0"
proof -
  have r: "round (2 / 3 :: rat) = 1" "round (7 / 15 :: rat) = 0"
    by (simp_all add: round_def floor_eq_iff)
  show ?thesis
    by (simp add: createTicket_accepted[OF trim_abc(1,1)] createTicket_accepted[OF trim_abc(2,2)]
      createTicket_accepted[OF trim_abc(3,3)] callNext_def markSkipped_def
      inProgress_def waitingQueue_def sortWaitingQueue_def compareWaiting_def ids_neq
      avgTodayWaitMinutes_def avgWait_spec_def waitRows_def isSameLocalDay_def utcJanuary1970_def
      waitMinutesOf_def exactWaitMinutes_def minutesBetween_int r)
qed

text \<open>
  Every ticket that is in progress or carries a \<open>doneAt\<close> has been started, so in a
  reachable store the rows of the handling average are the tickets completed that day.
\<close>

lemma step_started:
  assumes d: "distinct (map ticket_id s)"
    and inv: "\<forall>t\<in>set s. status t = In_progress \<or> doneAt t \<noteq> None \<longrightarrow> startedAt t \<noteq> None"
  shows "\<forall>t\<in>set (step op s). status t = In_progress \<or> doneAt t \<noteq> None \<longrightarrow> startedAt t \<noteq> None"
proof (cases op)
  case (Create u now a de p e)
  then show ?thesis using inv by (auto simp: createTicket_def Let_def)
next
  case (CallNext now)
  show ?thesis
  proof (cases "inProgress s = None \<and> waitingQueue s \<noteq> []")
    case True
    then obtain h rest where hr: "waitingQueue s = h # rest" by (cases "waitingQueue s") auto
    have ipn: "inProgress s = None" using True by simp
    from callNext_upd[OF d ipn hr, of now] obtain j where
      j: "callNext now s = s[j := h\<lparr>status := In_progress, startedAt := Some now\<rparr>]" by auto
    have "\<forall>t\<in>set (s[j := h\<lparr>status := In_progress, startedAt := Some now\<rparr>]).
        status t = In_progress \<or> doneAt t \<noteq> None \<longrightarrow> startedAt t \<noteq> None"
      by (intro set_upd_all[where P = "\<lambda>t. status t = In_progress \<or> doneAt t \<noteq> None \<longrightarrow> startedAt t \<noteq> None", OF inv]) simp
    then show ?thesis unfolding CallNext step.simps j .
  next
    case False
    then show ?thesis using CallNext inv callNext_noop[of s now] by auto
  qed
next
  case (Complete now dr)
  show ?thesis
  proof (cases "inProgress s")
    case None
    then show ?thesis using Complete inv by (simp add: markDone_def)
  next
    case (Some ip)
    from markDone_upd[OF d Some, of now dr] obtain j where
      j: "markDone now dr s = s[j := ip\<lparr>status := Done, doneAt := Some now, result := Some (trim dr)\<rparr>]"
      by auto
    have "ip \<in> set s" "status ip = In_progress" using inProgress_SomeD[OF Some] by simp_all
    then have "startedAt ip \<noteq> None" using inv by blast
    then have "\<forall>t\<in>set (s[j := ip\<lparr>status := Done, doneAt := Some now, result := Some (trim dr)\<rparr>]).
        status t = In_progress \<or> doneAt t \<noteq> None \<longrightarrow> startedAt t \<noteq> None"
      by (intro set_upd_all[where P = "\<lambda>t. status t = In_progress \<or> doneAt t \<noteq> None \<longrightarrow> startedAt t \<noteq> None", OF inv]) simp
    then show ?thesis unfolding Complete step.simps j .
  qed
next
  case Skip
  show ?thesis
  proof (cases "inProgress s")
    case None
    then show ?thesis using Skip inv by (simp add: markSkipped_def)
  next
    case (Some ip)
    from markSkipped_upd[OF d Some] obtain j where
      j: "markSkipped s = s[j := ip\<lparr>status := Skipped\<rparr>]" by auto
    have "ip \<in> set s" "status ip = In_progress" using inProgress_SomeD[OF Some] by simp_all
    then have "startedAt ip \<noteq> None" using inv by blast
    then have "\<forall>t\<in>set (s[j := ip\<lparr>status := Skipped\<rparr>]).
        status t = In_progress \<or> doneAt t \<noteq> None \<longrightarrow> startedAt t \<noteq> None"
      by (intro set_upd_all[where P = "\<lambda>t. status t = In_progress \<or> doneAt t \<noteq> None \<longrightarrow> startedAt t \<noteq> None", OF inv]) simp
    then show ?thesis unfolding Skip step.simps j .
  qed
next
  case (Bump k)
  then show ?thesis using inv by (auto simp: bumpPriority_def)
next
  case (Reset ok)
  then show ?thesis using inv by (simp add: resetAll_def)
qed

lemma reachable_started:
  "reachable s \<Longrightarrow> \<forall>t\<in>set s. status t = In_progress \<or> doneAt t \<noteq> None \<longrightarrow> startedAt t \<noteq> None"
proof (induction rule: reachable.induct)
  case reachable_init
  show ?case by simp
next
  case (reachable_step s op)
  show ?case using step_started[OF reachable_distinct[OF reachable_step.hyps(1)] reachable_step.IH] .
qed

lemma todayDone_filter:
  "todayDone ld t s = filter (\<lambda>x. \<exists>d. doneAt x = Some d \<and> ld d = ld t) s"
  unfolding todayDone_def
  by (rule filter_cong) (auto simp: isSameLocalDay_iff split: option.splits)

lemma waitRows_filter:
  "waitRows ld t s = filter (\<lambda>x. \<exists>st. startedAt x = Some st \<and> ld st = ld t) s"
  unfolding waitRows_def
  by (rule filter_cong) (auto simp: isSameLocalDay_iff split: option.splits)

lemma handleRows_filter:
  "handleRows ld t s
     = filter (\<lambda>x. \<exists>st d. startedAt x = Some st \<and> doneAt x = Some d \<and> ld d = ld t) s"
  unfolding handleRows_def
  by (rule filter_cong) (auto simp: isSameLocalDay_iff split: option.splits)

lemma handleRows_todayDone:
  assumes "reachable s"
  shows "handleRows ld t s = todayDone ld t s"
  unfolding handleRows_filter todayDone_filter
  using reachable_started[OF assms] by (intro filter_cong) auto

text \<open>
  Claim C8, amended. For the day of \<open>t\<close> in the local calendar: the count is the number
  of tickets whose \<open>doneAt\<close> falls on that day; the waiting average ranges over the
  tickets whose \<open>startedAt\<close> falls on that day, the handling average over the tickets
  with a \<open>startedAt\<close> whose \<open>doneAt\<close> falls on that day (in a reachable store: the
  tickets completed that day). Each ticket contributes its whole minutes: the
  milliseconds between the two instants divided by 60000, rounded to the nearest integer
  (ties upwards) and taken as 0 when negative. Each average is the sum of these whole
  minutes divided by the number of rows, rounded to the nearest integer (ties upwards),
  and 0 when there is no row.
\<close>

theorem day_statistics:
  "todayDone ld t s = filter (\<lambda>x. \<exists>d. doneAt x = Some d \<and> ld d = ld t) s
   \<and> waitRows ld t s = filter (\<lambda>x. \<exists>st. startedAt x = Some st \<and> ld st = ld t) s
   \<and> handleRows ld t s
       = filter (\<lambda>x. \<exists>st d. startedAt x = Some st \<and> doneAt x = Some d \<and> ld d = ld t) s
   \<and> (reachable s \<longrightarrow> handleRows ld t s = todayDone ld t s)
   \<and> minutesBetween a b = max 0 ((b - a + 30000) div 60000)
   \<and> (startedAt x = Some st \<longrightarrow> waitMinutesOf x = minutesBetween (createdAt x) st)
   \<and> (startedAt x = Some st \<and> doneAt x = Some d \<longrightarrow> handleMinutesOf x = minutesBetween st d)
   \<and> avgTodayWaitMinutes ld t s
       = (if waitRows ld t s = [] then 0
          else (2 * sum_list (map waitMinutesOf (waitRows ld t s)) + int (length (waitRows ld t s)))
                 div (2 * int (length (waitRows ld t s))))
   \<and> avgTodayHandleMinutes ld t s
       = (if handleRows ld t s = [] then 0
          else (2 * sum_list (map handleMinutesOf (handleRows ld t s))
                  + int (length (handleRows ld t s)))
                 div (2 * int (length (handleRows ld t s))))"
proof (intro conjI impI)
  show "todayDone ld t s = filter (\<lambda>x. \<exists>d. doneAt x = Some d \<and> ld d = ld t) s"
    by (rule todayDone_filter)
  show "waitRows ld t s = filter (\<lambda>x. \<exists>st. startedAt x = Some st \<and> ld st = ld t) s"
    by (rule waitRows_filter)
  show "handleRows ld t s
       = filter (\<lambda>x. \<exists>st d. startedAt x = Some st \<and> doneAt x = Some d \<and> ld d = ld t) s"
    by (rule handleRows_filter)
  show "handleRows ld t s = todayDone ld t s" if "reachable s"
    using that by (rule handleRows_todayDone)
  show "minutesBetween a b = max 0 ((b - a + 30000) div 60000)"
    by (rule minutesBetween_int)
  show "waitMinutesOf x = minutesBetween (createdAt x) st" if "startedAt x = Some st"
    using that by (simp add: waitMinutesOf_def)
  show "handleMinutesOf x = minutesBetween st d" if "startedAt x = Some st \<and> doneAt x = Some d"
    using that by (simp add: handleMinutesOf_def)
  show "avgTodayWaitMinutes ld t s
       = (if waitRows ld t s = [] then 0
          else (2 * sum_list (map waitMinutesOf (waitRows ld t s)) + int (length (waitRows ld t s)))
                 div (2 * int (length (waitRows ld t s))))"
    unfolding avgTodayWaitMinutes_def Let_def by (rule average_int)
  show "avgTodayHandleMinutes ld t s
       = (if handleRows ld t s = [] then 0
          else (2 * sum_list (map handleMinutesOf (handleRows ld t s))
                  + int (length (handleRows ld t s)))
                 div (2 * int (length (handleRows ld t s))))"
    unfolding avgTodayHandleMinutes_def Let_def by (rule average_int)
qed

theorem day_statistics_witness:
  "reachable (step (Complete 90000 []) (step (CallNext 30000)
      (step (Create (ascii ''u1'') 0 (ascii ''a'') (ascii ''a'') Medium (Finite 15)) [])))
   \<and> handleRows utcJanuary1970 90000 (step (Complete 90000 []) (step (CallNext 30000)
        (step (Create (ascii ''u1'') 0 (ascii ''a'') (ascii ''a'') Medium (Finite 15)) [])))
     = todayDone utcJanuary1970 90000 (step (Complete 90000 []) (step (CallNext 30000)
        (step (Create (ascii ''u1'') 0 (ascii ''a'') (ascii ''a'') Medium (Finite 15)) [])))
   \<and> length (todayDone utcJanuary1970 90000 (step (Complete 90000 []) (step (CallNext 30000)
        (step (Create (ascii ''u1'') 0 (ascii ''a'') (ascii ''a'') Medium (Finite 15)) [])))) = 1
   \<and> avgTodayWaitMinutes utcJanuary1970 90000 (step (Complete 90000 []) (step (CallNext 30000)
        (step (Create (ascii ''u1'') 0 (ascii ''a'') (ascii ''a'') Medium (Finite 15)) []))) = 1
   \<and> avgTodayHandleMinutes utcJanuary1970 90000 (step (Complete 90000 []) (step (CallNext 30000)
        (step (Create (ascii ''u1'') 0 (ascii ''a'') (ascii ''a'') Medium (Finite 15)) []))) = 1
   \<and> startedAt ((step (Complete 90000 []) (step (CallNext 30000)
        (step (Create (ascii ''u1'') 0 (ascii ''a'') (ascii ''a'') Medium (Finite 15)) []))) ! 0) = Some 30000
   \<and> doneAt ((step (Complete 90000 []) (step (CallNext 30000)
        (step (Create (ascii ''u1'') 0 (ascii ''a'') (ascii ''a'') Medium (Finite 15)) []))) ! 0) = Some 90000
   \<and> waitMinutesOf ((step (Complete 90000 []) (step (CallNext 30000)
        (step (Create (ascii ''u1'') 0 (ascii ''a'') (ascii ''a'') Medium (Finite 15)) []))) ! 0) = 1
   \<and> handleMinutesOf ((step (Complete 90000 []) (step (CallNext 30000)
        (step (Create (ascii ''u1'') 0 (ascii ''a'') (ascii ''a'') Medium (Finite 15)) []))) ! 0) = 1"
proof -
  let ?S = "step (Complete 90000 []) (step (CallNext 30000)
      (step (Create (ascii ''u1'') 0 (ascii ''a'') (ascii ''a'') Medium (Finite 15)) []))"
  have r: "reachable ?S"
    by (intro reachable_step reachable_init) simp_all
  have v: "?S = [\<lparr>ticket_id = ascii ''u1'', number = nextNumber [], name = trim (ascii ''a''),
           desc = trim (ascii ''a''), priority = Medium, etaMinutes = 15,
           status = Done, createdAt = 0, startedAt = Some 30000, doneAt = Some 90000,
           result = Some (trim [])\<rparr>]"
    by (simp add: createTicket_accepted[OF trim_abc(1,1)] callNext_def markDone_def
        inProgress_def waitingQueue_def sortWaitingQueue_def)
  note ds = day_statistics[of utcJanuary1970 90000 ?S 0 30000 "?S ! 0" 30000 90000]
  from ds r have h: "handleRows utcJanuary1970 90000 ?S = todayDone utcJanuary1970 90000 ?S"
    by blast
  from ds have w: "avgTodayWaitMinutes utcJanuary1970 90000 ?S
       = (if waitRows utcJanuary1970 90000 ?S = [] then 0
          else (2 * sum_list (map waitMinutesOf (waitRows utcJanuary1970 90000 ?S))
                  + int (length (waitRows utcJanuary1970 90000 ?S)))
                 div (2 * int (length (waitRows utcJanuary1970 90000 ?S))))"
    by blast
  from ds have hd: "avgTodayHandleMinutes utcJanuary1970 90000 ?S
       = (if handleRows utcJanuary1970 90000 ?S = [] then 0
          else (2 * sum_list (map handleMinutesOf (handleRows utcJanuary1970 90000 ?S))
                  + int (length (handleRows utcJanuary1970 90000 ?S)))
                 div (2 * int (length (handleRows utcJanuary1970 90000 ?S))))"
    by blast
  from ds have mb: "minutesBetween 0 30000 = max 0 ((30000 - 0 + 30000) div 60000)" by blast
  have mb2: "minutesBetween 30000 90000 = 1" by (simp add: minutesBetween_int)
  have wr: "waitRows utcJanuary1970 90000 ?S = ?S"
    unfolding v by (simp add: waitRows_def isSameLocalDay_def utcJanuary1970_def)
  have hr: "handleRows utcJanuary1970 90000 ?S = ?S"
    unfolding v by (simp add: handleRows_def isSameLocalDay_def utcJanuary1970_def)
  have td: "todayDone utcJanuary1970 90000 ?S = ?S"
    unfolding v by (simp add: todayDone_def isSameLocalDay_def utcJanuary1970_def)
  have aw: "avgTodayWaitMinutes utcJanuary1970 90000 ?S = 1"
    unfolding w wr unfolding v using mb by (simp add: waitMinutesOf_def)
  have ah: "avgTodayHandleMinutes utcJanuary1970 90000 ?S = 1"
    unfolding hd hr unfolding v using mb2 by (simp add: handleMinutesOf_def)
  have len: "length (todayDone utcJanuary1970 90000 ?S) = 1"
    unfolding td unfolding v by simp
  have sa: "startedAt (?S ! 0) = Some 30000" unfolding v by simp
  have da: "doneAt (?S ! 0) = Some 90000" unfolding v by simp
  from ds sa have "waitMinutesOf (?S ! 0) = minutesBetween (createdAt (?S ! 0)) 30000" by blast
  then have wm: "waitMinutesOf (?S ! 0) = 1" unfolding v by (simp add: minutesBetween_int)
  from ds sa da have "handleMinutesOf (?S ! 0) = minutesBetween 30000 90000" by blast
  then have hm: "handleMinutesOf (?S ! 0) = 1" using mb2 by simp
  show ?thesis using r h len aw ah sa da wm hm by blast
qed

end
